theory Spec2Isabelle
  imports Main "HOL-Library.Multiset" "HOL-Library.Sublist"
begin

section \<open>Data model of the multi-project dashboard server\<close>

text \<open>
  The embedding follows \<^verbatim>\<open>MultiProjectDashboardServer\<close>. A valid date is the integer that
  \<^verbatim>\<open>getTime()\<close> returns; an optional property is an \<open>option\<close>. Handlers run one at a
  time, as the single-threaded model of the server has it. The types \<^verbatim>\<open>Task\<close>,
  the spec and bug records of the parser and \<^verbatim>\<open>DiscoveredProject\<close> are declared in modules
  that the server imports; their fields are the ones the server reads or writes. Document
  payloads that the server only copies (\<^verbatim>\<open>requirements\<close>, \<^verbatim>\<open>design\<close>, the steering
  status) are opaque strings.
\<close>

type_synonym document = string
type_synonym steering = string

datatype task = Task
  (task_id : string)
  (task_description : string)
  (task_completed : bool)
  (task_requirements : "string list")
  (task_subtasks : "task list option")

record spec_tasks =
  taskList :: "task list"
  inProgress :: "string option"

record spec =
  spec_name :: string
  spec_displayName :: "string option"
  spec_status :: string
  spec_requirements :: "document option"
  spec_design :: "document option"
  spec_tasks :: "spec_tasks option"
  spec_lastModified :: "int option"

record bug_report =
  severity :: "string option"

record bug =
  bug_name :: string
  bug_displayName :: "string option"
  bug_status :: string
  bug_report :: "bug_report option"
  bug_lastModified :: "int option"

record discovered_project =
  dp_path :: string
  dp_name :: string
  dp_hasActiveSession :: bool
  dp_gitBranch :: "string option"
  dp_gitCommit :: "string option"
  dp_specCount :: nat
  dp_bugCount :: nat

text \<open>
  \<^verbatim>\<open>ProjectState\<close>: the parser and the watcher are both created from the normalised root
  path, which identifies them here.
\<close>

record project_state =
  project :: discovered_project
  parser :: string
  watcher :: string

text \<open>
  \<^verbatim>\<open>ActiveSession = ActiveSpecSession | ActiveBugSession\<close>: the fields of
  \<^verbatim>\<open>BaseActiveSession\<close> and the variant with its own fields.
\<close>

datatype session_variant =
  SpecVariant
    (specName : string)
    (task : task)
    (status : "string option")
    (requirements : "document option")
    (design : "document option")
    (tasks : "spec_tasks option")
    (isAdHoc : "bool option")
| BugVariant
    (bugName : string)
    (bugStatus : string)
    (bugSeverity : "string option")
    (nextCommand : string)

record active_session =
  projectPath :: string
  projectName :: string
  displayName :: string
  lastModified :: int
  isCurrentlyActive :: bool
  hasActiveSession :: bool
  gitBranch :: "string option"
  gitCommit :: "string option"
  variant :: session_variant

text \<open>An entry of the local array \<^verbatim>\<open>activeWorkItems\<close>.\<close>

datatype work_item_kind = SpecItem spec | BugItem bug

record work_item =
  wi_item :: work_item_kind
  wi_lastModified :: int
  wi_priority :: int

text \<open>
  The collaborators of the server whose code is in other modules, taken as parameters:
  the parser's answers for a root path, \<^verbatim>\<open>String.prototype.localeCompare\<close>,
  \<^verbatim>\<open>normalize(resolve(p))\<close>, the result of a discovery scan, and whether starting or
  stopping the watcher of a root path resolves (\<open>True\<close>) or rejects. The parser's calls
  return their lists.
\<close>

record collaborators =
  getAllSpecs :: "string \<Rightarrow> spec list"
  getAllBugs :: "string \<Rightarrow> bug list"
  getProjectSteeringStatus :: "string \<Rightarrow> steering"
  localeCompare :: "string \<Rightarrow> string \<Rightarrow> int"
  normalize_resolve :: "string \<Rightarrow> string"
  discoverProjects :: "discovered_project list"
  watcherStart :: "string \<Rightarrow> bool"
  watcherStop :: "string \<Rightarrow> bool"

text \<open>
  \<^verbatim>\<open>this.projects\<close> is a JavaScript \<^verbatim>\<open>Map\<close>: entries in insertion order, one per key.
  \<^verbatim>\<open>set\<close> replaces the value of a present key in place and appends an absent one;
  \<^verbatim>\<open>delete\<close> inside the loop over the entries drops the entry being visited.
\<close>

type_synonym registry = "(string \<times> project_state) list"

definition map_has :: "registry \<Rightarrow> string \<Rightarrow> bool" where
  "map_has reg k = list_ex (\<lambda>e. fst e = k) reg"

fun map_set :: "registry \<Rightarrow> string \<Rightarrow> project_state \<Rightarrow> registry" where
  "map_set [] k v = [(k, v)]"
| "map_set (e # es) k v = (if fst e = k then (k, v) # es else e # map_set es k v)"

section \<open>Array.prototype.sort with a comparator\<close>

text \<open>
  \<^verbatim>\<open>sort\<close> is stable, and with a consistent comparator its result is the one list that is
  ordered by the comparator and keeps equal elements in their order: the list that stable
  insertion computes. An element goes before the first one it does not compare greater to.
  The comparator of the work items is consistent; \<^verbatim>\<open>localeCompare\<close> is required by the
  language to order all strings totally.
\<close>

fun insert_cmp :: "('a \<Rightarrow> 'a \<Rightarrow> int) \<Rightarrow> 'a \<Rightarrow> 'a list \<Rightarrow> 'a list" where
  "insert_cmp cmp x [] = [x]"
| "insert_cmp cmp x (y # ys) = (if cmp x y \<le> 0 then x # y # ys else y # insert_cmp cmp x ys)"

fun js_sort :: "('a \<Rightarrow> 'a \<Rightarrow> int) \<Rightarrow> 'a list \<Rightarrow> 'a list" where
  "js_sort cmp [] = []"
| "js_sort cmp (x # xs) = insert_cmp cmp x (js_sort cmp xs)"

text \<open>A comparator is consistent when "not greater" is total and transitive.\<close>

definition consistent :: "('a \<Rightarrow> 'a \<Rightarrow> int) \<Rightarrow> bool" where
  "consistent cmp \<longleftrightarrow>
     (\<forall>a b. cmp a b \<le> 0 \<or> cmp b a \<le> 0) \<and>
     (\<forall>a b c. cmp a b \<le> 0 \<longrightarrow> cmp b c \<le> 0 \<longrightarrow> cmp a c \<le> 0)"

section \<open>The active-session resolver\<close>

text \<open>JavaScript truthiness of an optional string, and \<^verbatim>\<open>a || b\<close> on strings.\<close>

definition truthy :: "string option \<Rightarrow> bool" where
  "truthy v = (case v of None \<Rightarrow> False | Some s \<Rightarrow> s \<noteq> [])"

definition or_else :: "string option \<Rightarrow> string \<Rightarrow> string" where
  "or_else v d = (case v of None \<Rightarrow> d | Some s \<Rightarrow> if s = [] then d else s)"

text \<open>\<^verbatim>\<open>spec.tasks && spec.tasks.inProgress\<close>\<close>

definition hasInProgress :: "spec \<Rightarrow> bool" where
  "hasInProgress sp = (case spec_tasks sp of None \<Rightarrow> False | Some t \<Rightarrow> truthy (inProgress t))"

text \<open>\<^verbatim>\<open>x.lastModified || new Date(0)\<close>\<close>

definition dateOrEpoch :: "int option \<Rightarrow> int" where
  "dateOrEpoch d = (case d of None \<Rightarrow> 0 | Some t \<Rightarrow> t)"

definition specItem :: "int \<Rightarrow> spec \<Rightarrow> work_item" where
  "specItem p sp =
     \<lparr>wi_item = SpecItem sp, wi_lastModified = dateOrEpoch (spec_lastModified sp),
      wi_priority = p\<rparr>"

definition bugItem :: "int \<Rightarrow> bug \<Rightarrow> work_item" where
  "bugItem p b =
     \<lparr>wi_item = BugItem b, wi_lastModified = dateOrEpoch (bug_lastModified b),
      wi_priority = p\<rparr>"

definition isActiveBug :: "bug \<Rightarrow> bool" where
  "isActiveBug b = List.member [''analyzing'', ''fixing'', ''verifying''] (bug_status b)"

text \<open>The first two loops: specs with an active task, then active bugs.\<close>

definition activeItems :: "spec list \<Rightarrow> bug list \<Rightarrow> work_item list" where
  "activeItems specs bugs =
     map (specItem 100) (filter hasInProgress specs) @
     map (bugItem 90) (filter isActiveBug bugs)"

text \<open>The two loops under \<^verbatim>\<open>activeWorkItems.length === 0\<close>.\<close>

definition fallbackItems :: "spec list \<Rightarrow> bug list \<Rightarrow> work_item list" where
  "fallbackItems specs bugs =
     map (specItem 10) (filter (\<lambda>sp. spec_status sp \<noteq> ''completed'') specs) @
     map (bugItem 10) (filter (\<lambda>b. bug_status b \<noteq> ''resolved'') bugs)"

definition activeWorkItems :: "spec list \<Rightarrow> bug list \<Rightarrow> work_item list" where
  "activeWorkItems specs bugs =
     (let items = activeItems specs bugs
      in if length items = 0 then items @ fallbackItems specs bugs else items)"

definition compareWorkItems :: "work_item \<Rightarrow> work_item \<Rightarrow> int" where
  "compareWorkItems a b =
     (if wi_priority a \<noteq> wi_priority b then wi_priority b - wi_priority a
      else wi_lastModified b - wi_lastModified a)"

text \<open>\<^verbatim>\<open>activeWorkItems[0]\<close> after the sort, when the array is not empty.\<close>

definition mostRecent :: "spec list \<Rightarrow> bug list \<Rightarrow> work_item option" where
  "mostRecent specs bugs =
     (case js_sort compareWorkItems (activeWorkItems specs bugs) of
        [] \<Rightarrow> None
      | w # _ \<Rightarrow> Some w)"

fun findTaskById :: "task list \<Rightarrow> string \<Rightarrow> task option" where
  "findTaskById [] taskId = None"
| "findTaskById (Task i d c r None # ts) taskId =
     (if i = taskId then Some (Task i d c r None) else findTaskById ts taskId)"
| "findTaskById (Task i d c r (Some subs) # ts) taskId =
     (if i = taskId then Some (Task i d c r (Some subs))
      else case findTaskById subs taskId of
             Some found \<Rightarrow> Some found
           | None \<Rightarrow> findTaskById ts taskId)"

text \<open>
  The task of a spec session: the search runs only under
  \<^verbatim>\<open>spec.tasks && spec.tasks.inProgress\<close>.
\<close>

definition lookupActiveTask :: "spec \<Rightarrow> task option" where
  "lookupActiveTask sp =
     (case spec_tasks sp of
        None \<Rightarrow> None
      | Some t \<Rightarrow>
          (case inProgress t of
             None \<Rightarrow> None
           | Some i \<Rightarrow> if i = [] then None else findTaskById (taskList t) i))"

definition placeholderTask :: "spec \<Rightarrow> task" where
  "placeholderTask sp =
     Task ''session'' (or_else (spec_displayName sp) (spec_name sp)) False [] None"

definition activeTask :: "spec \<Rightarrow> task" where
  "activeTask sp = (case lookupActiveTask sp of None \<Rightarrow> placeholderTask sp | Some t \<Rightarrow> t)"

definition specSession :: "string \<Rightarrow> project_state \<Rightarrow> work_item \<Rightarrow> spec \<Rightarrow> active_session" where
  "specSession path st w sp =
     \<lparr>projectPath = path,
      projectName = dp_name (project st),
      displayName = or_else (spec_displayName sp) (spec_name sp),
      lastModified = wi_lastModified w,
      isCurrentlyActive = True,
      hasActiveSession = True,
      gitBranch = dp_gitBranch (project st),
      gitCommit = dp_gitCommit (project st),
      variant = SpecVariant (spec_name sp) (activeTask sp) (Some (spec_status sp))
                  (spec_requirements sp) (spec_design sp) (spec_tasks sp) None\<rparr>"

text \<open>
  The \<^verbatim>\<open>switch (bug.status)\<close>, with its default, as a function of the status and
  the name of the bug.
\<close>

definition nextCommandFor :: "string \<Rightarrow> string \<Rightarrow> string" where
  "nextCommandFor st name =
     (if st = ''reported'' then ''/bug-analyze '' @ name
      else if st = ''analyzing'' then ''/bug-analyze '' @ name
      else if st = ''fixing'' then ''/bug-fix '' @ name
      else if st = ''verifying'' then ''/bug-verify '' @ name
      else if st = ''fixed'' then ''/bug-verify '' @ name
      else if st = ''resolved'' then []
      else ''/bug-analyze '' @ name)"

text \<open>\<^verbatim>\<open>bug.report?.severity\<close>\<close>

definition severityOf :: "bug \<Rightarrow> string option" where
  "severityOf b = (case bug_report b of None \<Rightarrow> None | Some r \<Rightarrow> severity r)"

definition bugSession :: "string \<Rightarrow> project_state \<Rightarrow> work_item \<Rightarrow> bug \<Rightarrow> active_session" where
  "bugSession path st w b =
     \<lparr>projectPath = path,
      projectName = dp_name (project st),
      displayName = or_else (bug_displayName b) (bug_name b),
      lastModified = wi_lastModified w,
      isCurrentlyActive = True,
      hasActiveSession = True,
      gitBranch = dp_gitBranch (project st),
      gitCommit = dp_gitCommit (project st),
      variant = BugVariant (bug_name b) (bug_status b) (severityOf b)
                  (nextCommandFor (bug_status b) (bug_name b))\<rparr>"

text \<open>
  The generic session of a project with a process and no work item. \<open>clock path\<close> is what
  \<^verbatim>\<open>new Date()\<close> reads when the session of the project at \<open>path\<close> is built.
\<close>

definition adHocSession :: "(string \<Rightarrow> int) \<Rightarrow> string \<Rightarrow> project_state \<Rightarrow> active_session" where
  "adHocSession clock path st =
     \<lparr>projectPath = path,
      projectName = dp_name (project st),
      displayName = ''Ad-hoc Session'',
      lastModified = clock path,
      isCurrentlyActive = True,
      hasActiveSession = True,
      gitBranch = dp_gitBranch (project st),
      gitCommit = dp_gitCommit (project st),
      variant = SpecVariant ''ad-hoc-session''
                  (Task ''session'' ''Active Claude session'' False [] None)
                  None None None None (Some True)\<rparr>"

text \<open>
  The body of the loop over \<^verbatim>\<open>this.projects\<close>: \<open>None\<close> when the project is skipped
  (\<^verbatim>\<open>continue\<close>) or \<^verbatim>\<open>activeSession\<close> stays \<^verbatim>\<open>null\<close>.
\<close>

definition activeSession ::
  "collaborators \<Rightarrow> (string \<Rightarrow> int) \<Rightarrow> string \<Rightarrow> project_state \<Rightarrow> active_session option" where
  "activeSession ext clock path st =
     (if \<not> dp_hasActiveSession (project st) then None
      else
        let specs = getAllSpecs ext (parser st);
            bugs = getAllBugs ext (parser st)
        in case mostRecent specs bugs of
             Some w \<Rightarrow>
               (case wi_item w of
                  SpecItem sp \<Rightarrow> Some (specSession path st w sp)
                | BugItem b \<Rightarrow> Some (bugSession path st w b))
           | None \<Rightarrow> Some (adHocSession clock path st))"

text \<open>\<^verbatim>\<open>allActiveSessions\<close> before the final sort.\<close>

fun allActiveSessions ::
  "collaborators \<Rightarrow> (string \<Rightarrow> int) \<Rightarrow> registry \<Rightarrow> active_session list" where
  "allActiveSessions ext clock [] = []"
| "allActiveSessions ext clock ((path, st) # rest) =
     (case activeSession ext clock path st of
        None \<Rightarrow> allActiveSessions ext clock rest
      | Some s \<Rightarrow> s # allActiveSessions ext clock rest)"

text \<open>The tag \<^verbatim>\<open>type\<close> of a session.\<close>

definition sessionType :: "active_session \<Rightarrow> string" where
  "sessionType s = (case variant s of SpecVariant _ _ _ _ _ _ _ \<Rightarrow> ''spec'' | BugVariant _ _ _ _ \<Rightarrow> ''bug'')"

definition compareSessions ::
  "(string \<Rightarrow> string \<Rightarrow> int) \<Rightarrow> active_session \<Rightarrow> active_session \<Rightarrow> int" where
  "compareSessions cmp a b =
     (if isCurrentlyActive a \<and> \<not> isCurrentlyActive b then - 1
      else if \<not> isCurrentlyActive a \<and> isCurrentlyActive b then 1
      else cmp (projectName a) (projectName b))"

definition collectActiveSessions ::
  "collaborators \<Rightarrow> (string \<Rightarrow> int) \<Rightarrow> registry \<Rightarrow> active_session list" where
  "collectActiveSessions ext clock reg =
     js_sort (compareSessions (localeCompare ext)) (allActiveSessions ext clock reg)"

section \<open>Server state, broadcast and the periodic rescan\<close>

text \<open>A connected \<^verbatim>\<open>WebSocket\<close>: \<^verbatim>\<open>readyState\<close> 1 is \<^verbatim>\<open>OPEN\<close>.\<close>

record client =
  client_id :: nat
  readyState :: nat

text \<open>
  The tunnel manager is a collaborator. Its state is what \<^verbatim>\<open>getStatus()\<close> reports;
  \<^verbatim>\<open>stopTunnel()\<close> is a parameter that tells whether the call resolves and gives the
  state of the manager after it.
\<close>

record tunnel_manager =
  tm_active :: bool
  tm_info :: "string option"

record server =
  clients :: "client list"
  projects :: registry
  rescanInterval :: "nat option"
  tunnelManager :: "tunnel_manager option"

datatype message =
  NewProject discovered_project "spec list" "bug list" steering
| RemoveProject string
| ActiveSessionsUpdate "active_session list"
| TunnelStopped

text \<open>
  \<^verbatim>\<open>this.clients.forEach\<close> with the \<^verbatim>\<open>readyState === 1\<close> test: the sends it makes, as
  pairs of a client and the message.
\<close>

definition broadcast :: "client list \<Rightarrow> message \<Rightarrow> (nat \<times> message) list" where
  "broadcast cs m = map (\<lambda>c. (client_id c, m)) (filter (\<lambda>c. readyState c = 1) cs)"

text \<open>
  \<^verbatim>\<open>initializeProject\<close>: the path of the project object is overwritten with the
  normalised one; when \<^verbatim>\<open>watcher.start()\<close> rejects, the registry is not reached. The
  result is whether the call resolved, the project object after it, and the registry.
\<close>

definition initializeProject ::
  "collaborators \<Rightarrow> discovered_project \<Rightarrow> registry \<Rightarrow> bool \<times> discovered_project \<times> registry" where
  "initializeProject ext p reg =
     (let normalizedPath = normalize_resolve ext (dp_path p);
          p' = p\<lparr>dp_path := normalizedPath\<rparr>
      in if \<not> watcherStart ext normalizedPath then (False, p', reg)
         else (True, p',
               map_set reg normalizedPath
                 \<lparr>project = p', parser = normalizedPath, watcher = normalizedPath\<rparr>))"

text \<open>
  The first loop of the rescan, over the discovered projects. It returns whether it ran to
  its end, the sends, the project objects as the loop leaves them, and the registry.
\<close>

fun addNewProjects ::
  "collaborators \<Rightarrow> client list \<Rightarrow> discovered_project list \<Rightarrow> registry \<Rightarrow>
   bool \<times> (nat \<times> message) list \<times> discovered_project list \<times> registry" where
  "addNewProjects ext cs [] reg = (True, [], [], reg)"
| "addNewProjects ext cs (p # ps) reg =
     (if map_has reg (dp_path p) then
        (case addNewProjects ext cs ps reg of
           (ok, out, ps', reg') \<Rightarrow> (ok, out, p # ps', reg'))
      else
        (case initializeProject ext p reg of
           (started, p', reg1) \<Rightarrow>
             if \<not> started then (False, [], p' # ps, reg1)
             else
               (case addNewProjects ext cs ps reg1 of
                  (ok, out, ps', reg') \<Rightarrow>
                    (ok,
                     broadcast cs
                       (NewProject p' (getAllSpecs ext (dp_path p')) (getAllBugs ext (dp_path p'))
                          (getProjectSteeringStatus ext (dp_path p'))) @ out,
                     p' # ps', reg'))))"

text \<open>
  The second loop, over the entries of the registry: an entry whose key no discovered
  project has as its path is stopped and deleted. It returns whether it ran to its end, the
  sends, and the entries that remain.
\<close>

fun removeMissing ::
  "collaborators \<Rightarrow> client list \<Rightarrow> discovered_project list \<Rightarrow> registry \<Rightarrow>
   bool \<times> (nat \<times> message) list \<times> registry" where
  "removeMissing ext cs ds [] = (True, [], [])"
| "removeMissing ext cs ds ((path, st) # rest) =
     (if list_ex (\<lambda>p. dp_path p = path) ds then
        (case removeMissing ext cs ds rest of
           (ok, out, kept) \<Rightarrow> (ok, out, (path, st) # kept))
      else if \<not> watcherStop ext (watcher st) then (False, [], (path, st) # rest)
      else
        (case removeMissing ext cs ds rest of
           (ok, out, kept) \<Rightarrow> (ok, broadcast cs (RemoveProject path) @ out, kept)))"

text \<open>
  One run of the callback that \<^verbatim>\<open>startPeriodicRescan\<close> installs. A rejected await ends
  the callback where it is.
\<close>

definition periodicRescan ::
  "collaborators \<Rightarrow> (string \<Rightarrow> int) \<Rightarrow> server \<Rightarrow> bool \<times> (nat \<times> message) list \<times> server" where
  "periodicRescan ext clock srv =
     (case addNewProjects ext (clients srv) (discoverProjects ext) (projects srv) of
        (ok1, out1, activeProjects, reg1) \<Rightarrow>
          if \<not> ok1 then (False, out1, srv\<lparr>projects := reg1\<rparr>)
          else
            (case removeMissing ext (clients srv) activeProjects reg1 of
               (ok2, out2, reg2) \<Rightarrow>
                 if \<not> ok2 then (False, out1 @ out2, srv\<lparr>projects := reg2\<rparr>)
                 else
                   (True,
                    out1 @ out2 @
                      broadcast (clients srv)
                        (ActiveSessionsUpdate (collectActiveSessions ext clock reg2)),
                    srv\<lparr>projects := reg2\<rparr>)))"

section \<open>Tunnel stop route and server stop\<close>

datatype reply = Success | Failure nat string

text \<open>\<^verbatim>\<open>this.tunnelManager?.getStatus() || { active: false }\<close>\<close>

definition getTunnelStatus :: "server \<Rightarrow> bool \<times> string option" where
  "getTunnelStatus srv =
     (case tunnelManager srv of None \<Rightarrow> (False, None) | Some tm \<Rightarrow> (tm_active tm, tm_info tm))"

text \<open>The handler of \<^verbatim>\<open>POST /api/tunnel/stop\<close>: the reply, the sends and the server.\<close>

definition tunnelStopRoute ::
  "(tunnel_manager \<Rightarrow> bool \<times> tunnel_manager) \<Rightarrow> server \<Rightarrow>
   reply \<times> (nat \<times> message) list \<times> server" where
  "tunnelStopRoute stopTunnel srv =
     (case tunnelManager srv of
        None \<Rightarrow> (Failure 404 ''No tunnel manager available'', [], srv)
      | Some tm \<Rightarrow>
          (case stopTunnel tm of
             (resolved, tm') \<Rightarrow>
               if \<not> resolved
               then (Failure 500 ''Failed to stop tunnel'', [], srv\<lparr>tunnelManager := Some tm'\<rparr>)
               else (Success, broadcast (clients srv) TunnelStopped,
                     srv\<lparr>tunnelManager := Some tm'\<rparr>)))"

text \<open>The calls that \<^verbatim>\<open>stop()\<close> makes, in the order it makes them.\<close>

datatype teardown_step =
  ClearInterval nat
| WatcherStop string
| StopTunnel
| ClientClose nat
| ClientsClear
| AppClose

text \<open>The loop over the watchers ends at the first \<^verbatim>\<open>watcher.stop()\<close> that rejects.\<close>

fun stopWatchers :: "collaborators \<Rightarrow> registry \<Rightarrow> bool \<times> teardown_step list" where
  "stopWatchers ext [] = (True, [])"
| "stopWatchers ext ((path, st) # rest) =
     (if \<not> watcherStop ext (watcher st) then (False, [WatcherStop (watcher st)])
      else (case stopWatchers ext rest of (ok, steps) \<Rightarrow> (ok, WatcherStop (watcher st) # steps)))"

definition closeClients :: "client list \<Rightarrow> teardown_step list" where
  "closeClients cs =
     map (\<lambda>c. ClientClose (client_id c)) (filter (\<lambda>c. readyState c = 1) cs) @ [ClientsClear]"

text \<open>
  \<^verbatim>\<open>stop()\<close>: whether it resolved, the calls made, and the server. \<open>appClose\<close> tells
  whether \<^verbatim>\<open>this.app.close()\<close> resolves.
\<close>

definition stop ::
  "collaborators \<Rightarrow> (tunnel_manager \<Rightarrow> bool \<times> tunnel_manager) \<Rightarrow> bool \<Rightarrow> server \<Rightarrow>
   bool \<times> teardown_step list \<times> server" where
  "stop ext stopTunnel appClose srv =
     (let timer = (case rescanInterval srv of None \<Rightarrow> [] | Some h \<Rightarrow> [ClearInterval h])
      in case stopWatchers ext (projects srv) of
           (ok1, watchers) \<Rightarrow>
             if \<not> ok1 then (False, timer @ watchers, srv)
             else
               (case tunnelManager srv of
                  None \<Rightarrow>
                    (appClose, timer @ watchers @ closeClients (clients srv) @ [AppClose],
                     srv\<lparr>clients := []\<rparr>)
                | Some tm \<Rightarrow>
                    (case stopTunnel tm of
                       (ok2, tm') \<Rightarrow>
                         if \<not> ok2
                         then (False, timer @ watchers @ [StopTunnel],
                               srv\<lparr>tunnelManager := Some tm'\<rparr>)
                         else (appClose,
                               timer @ watchers @ [StopTunnel] @ closeClients (clients srv) @
                                 [AppClose],
                               srv\<lparr>clients := [], tunnelManager := Some tm'\<rparr>))))"

section \<open>Reference notions for the properties\<close>


text \<open>A session with the time stamp of an ad-hoc session blanked.\<close>

definition blankAdHocTime :: "active_session \<Rightarrow> active_session" where
  "blankAdHocTime s =
     (case variant s of
        SpecVariant n t st rq de ts (Some True) \<Rightarrow> s\<lparr>lastModified := 0\<rparr>
      | _ \<Rightarrow> s)"

text \<open>
  The calls of a \<^verbatim>\<open>stop()\<close> in which nothing rejects: the timer, the watchers in registry
  order, the tunnel when there is a manager, the open clients, the client set, the server.
\<close>

definition teardownPlan :: "server \<Rightarrow> teardown_step list" where
  "teardownPlan srv =
     (case rescanInterval srv of None \<Rightarrow> [] | Some h \<Rightarrow> [ClearInterval h]) @
     map (\<lambda>e. WatcherStop (watcher (snd e))) (projects srv) @
     (case tunnelManager srv of None \<Rightarrow> [] | Some tm \<Rightarrow> [StopTunnel]) @
     closeClients (clients srv) @ [AppClose]"

text \<open>
  A comparator that orders strings by character code: a consistent comparator to run the
  examples with.
\<close>

fun codeCompare :: "string \<Rightarrow> string \<Rightarrow> int" where
  "codeCompare [] [] = 0"
| "codeCompare [] (y # ys) = - 1"
| "codeCompare (x # xs) [] = 1"
| "codeCompare (x # xs) (y # ys) =
     (if (of_char x :: nat) < of_char y then - 1
      else if (of_char y :: nat) < of_char x then 1
      else codeCompare xs ys)"

text \<open>A normaliser that only drops one trailing slash, to run the examples with.\<close>

definition dropSlash :: "string \<Rightarrow> string" where
  "dropSlash p = (if p \<noteq> [] \<and> last p = CHR ''/'' \<and> length p > 1 then butlast p else p)"

subsection \<open>An example registry\<close>

text \<open>
  Four workspaces: \<open>/w/a\<close> has a process, a spec with task 2.3 in progress and a bug being
  fixed; \<open>/w/b\<close> has a process, a completed spec and a resolved bug; \<open>/w/c\<close> has no process;
  \<open>/w/d\<close> has a process and a bug being verified.
\<close>

definition exTasks :: "task list" where
  "exTasks =
     [Task ''1'' ''Set up'' True [] None,
      Task ''2'' ''Build'' False []
        (Some [Task ''2.1'' ''Model'' True [] None, Task ''2.3'' ''Resolver'' False [] None])]"

definition exSpecA :: spec where
  "exSpecA =
     \<lparr>spec_name = ''sync'', spec_displayName = Some ''Sync'', spec_status = ''in-progress'',
      spec_requirements = None, spec_design = None,
      spec_tasks = Some \<lparr>taskList = exTasks, inProgress = Some ''2.3''\<rparr>,
      spec_lastModified = Some 1000\<rparr>"

definition exBugA :: bug where
  "exBugA =
     \<lparr>bug_name = ''crash'', bug_displayName = None, bug_status = ''fixing'',
      bug_report = Some \<lparr>severity = Some ''high''\<rparr>, bug_lastModified = Some 2000\<rparr>"

definition exSpecB :: spec where
  "exSpecB =
     \<lparr>spec_name = ''login'', spec_displayName = Some ''Login'', spec_status = ''completed'',
      spec_requirements = None, spec_design = None,
      spec_tasks = Some \<lparr>taskList = [Task ''1'' ''Form'' True [] None], inProgress = None\<rparr>,
      spec_lastModified = Some 500\<rparr>"

definition exBugB :: bug where
  "exBugB =
     \<lparr>bug_name = ''typo'', bug_displayName = None, bug_status = ''resolved'',
      bug_report = None, bug_lastModified = Some 700\<rparr>"

definition exBugD :: bug where
  "exBugD =
     \<lparr>bug_name = ''leak'', bug_displayName = Some ''Leak'', bug_status = ''verifying'',
      bug_report = Some \<lparr>severity = Some ''critical''\<rparr>, bug_lastModified = Some 900\<rparr>"

definition exProject :: "string \<Rightarrow> string \<Rightarrow> bool \<Rightarrow> discovered_project" where
  "exProject path name active =
     \<lparr>dp_path = path, dp_name = name, dp_hasActiveSession = active,
      dp_gitBranch = None, dp_gitCommit = None, dp_specCount = 1, dp_bugCount = 1\<rparr>"

definition exState :: "string \<Rightarrow> string \<Rightarrow> bool \<Rightarrow> project_state" where
  "exState path name active =
     \<lparr>project = exProject path name active, parser = path, watcher = path\<rparr>"

definition exRegistry :: registry where
  "exRegistry =
     [(''/w/b'', exState ''/w/b'' ''beta'' True),
      (''/w/a'', exState ''/w/a'' ''alpha'' True),
      (''/w/c'', exState ''/w/c'' ''gamma'' False),
      (''/w/d'', exState ''/w/d'' ''delta'' True)]"

definition exExt :: collaborators where
  "exExt =
     \<lparr>getAllSpecs = (\<lambda>p. if p = ''/w/a'' then [exSpecA] else if p = ''/w/b'' then [exSpecB] else []),
      getAllBugs = (\<lambda>p. if p = ''/w/a'' then [exBugA] else if p = ''/w/b'' then [exBugB]
                         else if p = ''/w/d'' then [exBugD] else []),
      getProjectSteeringStatus = (\<lambda>p. []),
      localeCompare = codeCompare,
      normalize_resolve = dropSlash,
      discoverProjects =
        [exProject ''/w/b'' ''beta'' True, exProject ''/w/a'' ''alpha'' True,
         exProject ''/w/c'' ''gamma'' False, exProject ''/w/d'' ''delta'' True],
      watcherStart = (\<lambda>p. True),
      watcherStop = (\<lambda>p. True)\<rparr>"

definition exClock :: "string \<Rightarrow> int" where
  "exClock p = 5000"

definition exServer :: server where
  "exServer =
     \<lparr>clients = [\<lparr>client_id = 1, readyState = 1\<rparr>, \<lparr>client_id = 2, readyState = 3\<rparr>],
      projects = exRegistry, rescanInterval = Some 7, tunnelManager = None\<rparr>"

subsection \<open>Examples for the rescan, the tunnel route and stop\<close>

text \<open>A tunnel collaborator whose stop always resolves and leaves no tunnel active.\<close>

definition exStopTunnel :: "tunnel_manager \<Rightarrow> bool \<times> tunnel_manager" where
  "exStopTunnel tm = (True, tm\<lparr>tm_active := False, tm_info := None\<rparr>)"

definition exTunnelServer :: server where
  "exTunnelServer = exServer\<lparr>tunnelManager := Some \<lparr>tm_active = False, tm_info = None\<rparr>\<rparr>"

text \<open>Collaborators under which stopping the watcher of \<open>/w/b\<close> rejects.\<close>

definition exFailingExt :: collaborators where
  "exFailingExt = exExt\<lparr>watcherStop := (\<lambda>p. p \<noteq> ''/w/b'')\<rparr>"

text \<open>Collaborators under which stopping the watcher of \<open>/w/a\<close>, the second one, rejects.\<close>

definition exLateFailingExt :: collaborators where
  "exLateFailingExt = exExt\<lparr>watcherStop := (\<lambda>p. p \<noteq> ''/w/a'')\<rparr>"

text \<open>A discovery that reports one workspace, with a trailing slash in its path.\<close>

definition exSlashExt :: collaborators where
  "exSlashExt = exExt\<lparr>discoverProjects := [exProject ''/w/e/'' ''epsilon'' True]\<rparr>"

definition exEmptyServer :: server where
  "exEmptyServer = exServer\<lparr>projects := []\<rparr>"

definition exSlashServer :: server where
  "exSlashServer = exServer\<lparr>projects := [(''/w/e'', exState ''/w/e'' ''epsilon'' True)]\<rparr>"

definition exLaterClock :: "string \<Rightarrow> int" where
  "exLaterClock p = 15000"

section \<open>Properties of the sort\<close>

lemma mset_insert_cmp: "mset (insert_cmp cmp x xs) = add_mset x (mset xs)"
  by (induction xs) auto

lemma mset_js_sort: "mset (js_sort cmp xs) = mset xs"
  by (induction xs) (auto simp: mset_insert_cmp)

lemma set_js_sort: "set (js_sort cmp xs) = set xs"
  by (metis mset_js_sort set_mset_mset)

lemma length_js_sort: "length (js_sort cmp xs) = length xs"
  by (metis mset_js_sort size_mset)

lemma set_insert_cmp: "set (insert_cmp cmp x xs) = insert x (set xs)"
  by (induction xs) auto

lemma consistent_refl: "consistent cmp \<Longrightarrow> cmp a a \<le> 0"
  unfolding consistent_def by blast

lemma consistent_total: "consistent cmp \<Longrightarrow> \<not> cmp a b \<le> 0 \<Longrightarrow> cmp b a \<le> 0"
  unfolding consistent_def by blast

lemma consistent_trans: "consistent cmp \<Longrightarrow> cmp a b \<le> 0 \<Longrightarrow> cmp b c \<le> 0 \<Longrightarrow> cmp a c \<le> 0"
  unfolding consistent_def by blast

lemma sorted_insert_cmp:
  assumes "consistent cmp" and "sorted_wrt (\<lambda>a b. cmp a b \<le> 0) xs"
  shows "sorted_wrt (\<lambda>a b. cmp a b \<le> 0) (insert_cmp cmp x xs)"
  using assms(2)
proof (induction xs)
  case Nil
  then show ?case by simp
next
  case (Cons y ys)
  show ?case
  proof (cases "cmp x y \<le> 0")
    case True
    with Cons.prems show ?thesis
      using consistent_trans [OF assms(1)] by (auto)
  next
    case False
    then have "cmp y x \<le> 0" using consistent_total [OF assms(1)] by blast
    with False Cons show ?thesis by (auto simp: set_insert_cmp)
  qed
qed

lemma sorted_js_sort:
  "consistent cmp \<Longrightarrow> sorted_wrt (\<lambda>a b. cmp a b \<le> 0) (js_sort cmp xs)"
  by (induction xs) (auto intro: sorted_insert_cmp)

text \<open>The sort is stable: elements that compare equal keep their order.\<close>

lemma filter_insert_cmp:
  assumes "consistent cmp"
  shows "filter (\<lambda>y. cmp k y \<le> 0 \<and> cmp y k \<le> 0) (insert_cmp cmp x ys) =
         (if cmp k x \<le> 0 \<and> cmp x k \<le> 0
          then x # filter (\<lambda>y. cmp k y \<le> 0 \<and> cmp y k \<le> 0) ys
          else filter (\<lambda>y. cmp k y \<le> 0 \<and> cmp y k \<le> 0) ys)"
proof (induction ys)
  case Nil
  then show ?case by simp
next
  case (Cons y ys)
  have "cmp x y \<le> 0" if "cmp x k \<le> 0" and "cmp k y \<le> 0"
    using that consistent_trans [OF assms] by blast
  with Cons show ?case by auto
qed

lemma js_sort_stable:
  assumes "consistent cmp"
  shows "filter (\<lambda>y. cmp k y \<le> 0 \<and> cmp y k \<le> 0) (js_sort cmp xs) =
         filter (\<lambda>y. cmp k y \<le> 0 \<and> cmp y k \<le> 0) xs"
  by (induction xs) (simp_all add: filter_insert_cmp [OF assms])

lemma insert_cmp_cong:
  "(\<And>y. y \<in> set xs \<Longrightarrow> c1 x y = c2 x y) \<Longrightarrow> insert_cmp c1 x xs = insert_cmp c2 x xs"
  by (induction xs) auto

lemma js_sort_cong:
  "(\<And>x y. x \<in> set xs \<Longrightarrow> y \<in> set xs \<Longrightarrow> c1 x y = c2 x y) \<Longrightarrow> js_sort c1 xs = js_sort c2 xs"
proof (induction xs)
  case Nil
  then show ?case by simp
next
  case (Cons x xs)
  have "js_sort c1 xs = js_sort c2 xs" using Cons by simp
  moreover have "insert_cmp c1 x (js_sort c2 xs) = insert_cmp c2 x (js_sort c2 xs)"
    by (rule insert_cmp_cong) (simp add: set_js_sort Cons.prems)
  ultimately show ?case by simp
qed

lemma insert_cmp_map:
  "insert_cmp cmp (f x) (map f xs) = map f (insert_cmp (\<lambda>a b. cmp (f a) (f b)) x xs)"
  by (induction xs) auto

lemma js_sort_map:
  "js_sort cmp (map f xs) = map f (js_sort (\<lambda>a b. cmp (f a) (f b)) xs)"
  by (induction xs) (auto simp: insert_cmp_map)

lemma hd_js_sort_least:
  assumes "consistent cmp" and "js_sort cmp xs = w # ws" and "y \<in> set xs"
  shows "cmp w y \<le> 0"
proof -
  have s: "sorted_wrt (\<lambda>a b. cmp a b \<le> 0) (w # ws)"
    using sorted_js_sort [OF assms(1), of xs] assms(2) by simp
  have "y \<in> set (w # ws)" using assms(2,3) set_js_sort [of cmp xs] by simp
  then show ?thesis using s consistent_refl [OF assms(1)] by auto
qed


section \<open>Properties of the active-session resolver\<close>

lemma consistent_compareWorkItems: "consistent compareWorkItems"
  unfolding consistent_def compareWorkItems_def by auto

lemma consistent_compareSessions: "consistent cmp \<Longrightarrow> consistent (compareSessions cmp)"
  unfolding consistent_def compareSessions_def by (auto; meson)

lemma mostRecent_None: "mostRecent specs bugs = None \<longleftrightarrow> activeWorkItems specs bugs = []"
proof -
  have "js_sort compareWorkItems (activeWorkItems specs bugs) = [] \<longleftrightarrow> activeWorkItems specs bugs = []"
    using length_js_sort [of compareWorkItems "activeWorkItems specs bugs"] by (metis length_0_conv)
  then show ?thesis by (auto simp: mostRecent_def split: list.splits)
qed

lemma mostRecent_Some:
  assumes "mostRecent specs bugs = Some w"
  shows "w \<in> set (activeWorkItems specs bugs)"
    and "y \<in> set (activeWorkItems specs bugs) \<Longrightarrow> compareWorkItems w y \<le> 0"
proof -
  from assms obtain ws where ws: "js_sort compareWorkItems (activeWorkItems specs bugs) = w # ws"
    by (auto simp: mostRecent_def split: list.splits)
  then have "w \<in> set (js_sort compareWorkItems (activeWorkItems specs bugs))" by simp
  then show "w \<in> set (activeWorkItems specs bugs)" by (simp add: set_js_sort)
  show "y \<in> set (activeWorkItems specs bugs) \<Longrightarrow> compareWorkItems w y \<le> 0"
    using hd_js_sort_least [OF consistent_compareWorkItems ws] by simp
qed

lemma activeSession_Some_iff:
  "(\<exists>s. activeSession ext clock path st = Some s) \<longleftrightarrow> dp_hasActiveSession (project st)"
  by (auto simp: activeSession_def Let_def split: option.splits work_item_kind.splits)

lemma activeSession_fields:
  assumes "activeSession ext clock path st = Some s"
  shows "projectPath s = path" "projectName s = dp_name (project st)"
    "isCurrentlyActive s" "hasActiveSession s" "dp_hasActiveSession (project st)"
  using assms
  by (auto simp: activeSession_def Let_def specSession_def bugSession_def adHocSession_def
      split: option.splits work_item_kind.splits if_splits)

lemma allActiveSessions_paths:
  "map projectPath (allActiveSessions ext clock reg) =
   map fst (filter (\<lambda>e. dp_hasActiveSession (project (snd e))) reg)"
proof (induction reg)
  case Nil
  then show ?case by simp
next
  case (Cons e reg)
  obtain path st where e: "e = (path, st)" by (cases e)
  show ?case
  proof (cases "activeSession ext clock path st")
    case None
    then have "\<not> dp_hasActiveSession (project st)"
      using activeSession_Some_iff [of ext clock path st] by auto
    with None Cons e show ?thesis by simp
  next
    case (Some s)
    then show ?thesis using Cons e activeSession_fields(1,5) [OF Some] by simp
  qed
qed

lemma allActiveSessions_flags:
  "s \<in> set (allActiveSessions ext clock reg) \<Longrightarrow> isCurrentlyActive s \<and> hasActiveSession s"
proof (induction reg)
  case Nil
  then show ?case by simp
next
  case (Cons e reg)
  obtain path st where e: "e = (path, st)" by (cases e)
  from Cons e show ?case
    by (auto split: option.splits dest: activeSession_fields(3,4))
qed

lemma allActiveSessions_filter_path:
  assumes "distinct (map fst reg)" and "(path, st) \<in> set reg"
  shows "filter (\<lambda>s. projectPath s = path) (allActiveSessions ext clock reg) =
         (case activeSession ext clock path st of None \<Rightarrow> [] | Some s \<Rightarrow> [s])"
  using assms
proof (induction reg)
  case Nil
  then show ?case by simp
next
  case (Cons e reg)
  obtain p st' where e: "e = (p, st')" by (cases e)
  have other: "filter (\<lambda>s. projectPath s = path) (allActiveSessions ext clock reg) = []"
    if "path \<notin> fst ` set reg"
  proof -
    have "path \<notin> set (map projectPath (allActiveSessions ext clock reg))"
      using that unfolding allActiveSessions_paths by auto
    then show ?thesis by (auto simp: filter_empty_conv)
  qed
  show ?case
  proof (cases "p = path")
    case True
    with Cons.prems e have st: "st' = st" and notin: "path \<notin> fst ` set reg"
      by (auto simp: rev_image_eqI)
    show ?thesis using e True st other [OF notin]
      by (auto split: option.splits dest: activeSession_fields(1))
  next
    case False
    with Cons e have "filter (\<lambda>s. projectPath s = path) (allActiveSessions ext clock reg) =
         (case activeSession ext clock path st of None \<Rightarrow> [] | Some s \<Rightarrow> [s])" by auto
    with False e show ?thesis
      by (auto split: option.splits dest: activeSession_fields(1))
  qed
qed

lemma filter_js_sort_single:
  assumes "filter P xs = ys" and "length ys \<le> 1"
  shows "filter P (js_sort cmp xs) = ys"
proof -
  let ?zs = "filter P (js_sort cmp xs)"
  have m: "mset ?zs = mset ys"
    using assms(1) [symmetric] by (simp add: mset_js_sort)
  then have l: "length ?zs = length ys" by (rule mset_eq_length)
  show ?thesis
  proof (cases ys)
    case Nil
    with l show ?thesis by simp
  next
    case (Cons y ys')
    with assms(2) have ys: "ys = [y]" by simp
    with l obtain z where z: "?zs = [z]" by (cases ?zs) auto
    with m ys have "z = y" by simp
    with z ys show ?thesis by simp
  qed
qed

lemma sessions_of_path:
  assumes "distinct (map fst reg)" and "(path, st) \<in> set reg"
  shows "filter (\<lambda>s. projectPath s = path) (collectActiveSessions ext clock reg) =
         (case activeSession ext clock path st of None \<Rightarrow> [] | Some s \<Rightarrow> [s])"
  unfolding collectActiveSessions_def
  by (rule filter_js_sort_single [OF allActiveSessions_filter_path [OF assms]])
     (simp split: option.splits)

lemma activeItems_priority:
  "w \<in> set (activeItems specs bugs) \<Longrightarrow>
   (\<exists>sp \<in> set specs. hasInProgress sp \<and> w = specItem 100 sp) \<or>
   (\<exists>b \<in> set bugs. isActiveBug b \<and> w = bugItem 90 b)"
  by (auto simp: activeItems_def)

lemma activeWorkItems_active:
  "activeItems specs bugs \<noteq> [] \<Longrightarrow> activeWorkItems specs bugs = activeItems specs bugs"
  by (simp add: activeWorkItems_def Let_def)

lemma activeWorkItems_empty_iff:
  "activeWorkItems specs bugs = [] \<longleftrightarrow>
   (\<forall>sp \<in> set specs. \<not> hasInProgress sp \<and> spec_status sp = ''completed'') \<and>
   (\<forall>b \<in> set bugs. bug_status b = ''resolved'')"
  by (auto simp: activeWorkItems_def Let_def activeItems_def fallbackItems_def filter_empty_conv
      isActiveBug_def)

lemma mostRecent_prefers_spec:
  assumes "sp \<in> set specs" and "hasInProgress sp"
  shows "\<exists>sp' \<in> set specs. hasInProgress sp' \<and> mostRecent specs bugs = Some (specItem 100 sp')"
proof -
  have mem: "specItem 100 sp \<in> set (activeItems specs bugs)"
    using assms by (simp add: activeItems_def)
  then have awi: "activeWorkItems specs bugs = activeItems specs bugs"
    by (intro activeWorkItems_active) auto
  with mem have "activeWorkItems specs bugs \<noteq> []" by auto
  then obtain w where w: "mostRecent specs bugs = Some w"
    using mostRecent_None [of specs bugs] by (cases "mostRecent specs bugs") auto
  have "compareWorkItems w (specItem 100 sp) \<le> 0"
    using mostRecent_Some(2) [OF w] mem awi by simp
  then have p: "100 \<le> wi_priority w"
    by (simp add: compareWorkItems_def specItem_def split: if_splits)
  have "w \<in> set (activeItems specs bugs)" using mostRecent_Some(1) [OF w] awi by simp
  then consider sp' where "sp' \<in> set specs" "hasInProgress sp'" "w = specItem 100 sp'"
    | b where "w = bugItem 90 b"
    using activeItems_priority by blast
  then show ?thesis
  proof cases
    case 1
    with w show ?thesis by blast
  next
    case 2
    with p show ?thesis by (simp add: bugItem_def)
  qed
qed

text \<open>A resolved bug is never the selected work item.\<close>

lemma selected_bug_not_resolved:
  assumes "mostRecent specs bugs = Some w" and "wi_item w = BugItem b"
  shows "bug_status b \<noteq> ''resolved''"
proof -
  from mostRecent_Some(1) [OF assms(1)] have "w \<in> set (activeWorkItems specs bugs)" .
  then have "w \<in> set (activeItems specs bugs) \<or> w \<in> set (fallbackItems specs bugs)"
    by (auto simp: activeWorkItems_def Let_def split: if_splits)
  with assms(2) show ?thesis
    by (auto simp: activeItems_def fallbackItems_def specItem_def bugItem_def isActiveBug_def)
qed

lemma activeSession_spec:
  assumes "dp_hasActiveSession (project st)"
    and "mostRecent (getAllSpecs ext (parser st)) (getAllBugs ext (parser st)) = Some w"
    and "wi_item w = SpecItem sp"
  shows "activeSession ext clock path st = Some (specSession path st w sp)"
  using assms by (simp add: activeSession_def Let_def)

lemma activeSession_bug:
  assumes "dp_hasActiveSession (project st)"
    and "mostRecent (getAllSpecs ext (parser st)) (getAllBugs ext (parser st)) = Some w"
    and "wi_item w = BugItem b"
  shows "activeSession ext clock path st = Some (bugSession path st w b)"
  using assms by (simp add: activeSession_def Let_def)

lemma activeSession_adHoc:
  assumes "dp_hasActiveSession (project st)"
    and "activeWorkItems (getAllSpecs ext (parser st)) (getAllBugs ext (parser st)) = []"
  shows "activeSession ext clock path st = Some (adHocSession clock path st)"
  using assms mostRecent_None [of "getAllSpecs ext (parser st)" "getAllBugs ext (parser st)"]
  by (simp add: activeSession_def Let_def)




section \<open>Claims about the snapshot\<close>

lemma collect_paths_mset:
  "mset (map projectPath (collectActiveSessions ext clock reg)) =
   mset (map fst (filter (\<lambda>e. dp_hasActiveSession (project (snd e))) reg))"
proof -
  have "mset (map projectPath (collectActiveSessions ext clock reg)) =
        mset (map projectPath (allActiveSessions ext clock reg))"
    unfolding collectActiveSessions_def by (simp add: mset_js_sort)
  then show ?thesis by (simp only: allActiveSessions_paths)
qed

lemma collect_paths_set:
  "projectPath ` set (collectActiveSessions ext clock reg) =
   fst ` {e \<in> set reg. dp_hasActiveSession (project (snd e))}"
proof -
  have "set (map projectPath (collectActiveSessions ext clock reg)) =
        set (map fst (filter (\<lambda>e. dp_hasActiveSession (project (snd e))) reg))"
    using collect_paths_mset [of ext clock reg] by (rule mset_eq_setD)
  then show ?thesis by simp
qed

text \<open>
  Claim C1. A registry is a \<^verbatim>\<open>Map\<close>, so its keys are distinct. The snapshot of
  \<open>collectActiveSessions\<close> then has at most one session for a workspace path, every
  session belongs to a registered workspace whose \<^verbatim>\<open>hasActiveSession\<close> flag is set, a
  workspace whose flag is not set has no session, and the snapshot is no longer than the
  registry.
\<close>

theorem one_session_per_workspace:
  assumes "distinct (map fst reg)"
  shows "distinct (map projectPath (collectActiveSessions ext clock reg)) \<and>
         (\<forall>s \<in> set (collectActiveSessions ext clock reg).
            \<exists>st. (projectPath s, st) \<in> set reg \<and> dp_hasActiveSession (project st)) \<and>
         (\<forall>e \<in> set reg. \<not> dp_hasActiveSession (project (snd e)) \<longrightarrow>
            fst e \<notin> projectPath ` set (collectActiveSessions ext clock reg)) \<and>
         length (collectActiveSessions ext clock reg) \<le> length reg"
proof (intro conjI)
  have "distinct (map fst (filter (\<lambda>e. dp_hasActiveSession (project (snd e))) reg))"
    using assms by (rule distinct_map_filter)
  then show "distinct (map projectPath (collectActiveSessions ext clock reg))"
    using mset_eq_imp_distinct_iff [OF collect_paths_mset [of ext clock reg]] by simp
next
  show "\<forall>s \<in> set (collectActiveSessions ext clock reg).
          \<exists>st. (projectPath s, st) \<in> set reg \<and> dp_hasActiveSession (project st)"
  proof
    fix s assume "s \<in> set (collectActiveSessions ext clock reg)"
    then have "projectPath s \<in> fst ` {e \<in> set reg. dp_hasActiveSession (project (snd e))}"
      using collect_paths_set [of ext clock reg] by blast
    then show "\<exists>st. (projectPath s, st) \<in> set reg \<and> dp_hasActiveSession (project st)"
      by force
  qed
next
  show "\<forall>e \<in> set reg. \<not> dp_hasActiveSession (project (snd e)) \<longrightarrow>
          fst e \<notin> projectPath ` set (collectActiveSessions ext clock reg)"
  proof (intro ballI impI notI)
    fix e assume e: "e \<in> set reg" "\<not> dp_hasActiveSession (project (snd e))"
      and "fst e \<in> projectPath ` set (collectActiveSessions ext clock reg)"
    then obtain e' where e': "e' \<in> set reg" "dp_hasActiveSession (project (snd e'))" "fst e' = fst e"
      unfolding collect_paths_set by auto
    have "inj_on fst (set reg)" using assms by (simp add: distinct_map)
    with e(1) e'(1,3) have "e' = e" by (auto dest: inj_onD)
    with e(2) e'(2) show False by simp
  qed
next
  have "length (collectActiveSessions ext clock reg) =
        length (map projectPath (collectActiveSessions ext clock reg))" by simp
  also have "\<dots> = length (map fst (filter (\<lambda>e. dp_hasActiveSession (project (snd e))) reg))"
    using collect_paths_mset [of ext clock reg] by (rule mset_eq_length)
  also have "\<dots> \<le> length reg" by simp
  finally show "length (collectActiveSessions ext clock reg) \<le> length reg" .
qed

text \<open>The example registry: three of its four workspaces have a process.\<close>

theorem one_session_per_workspace_witness:
  "distinct (map fst exRegistry) \<and>
   distinct (map projectPath (collectActiveSessions exExt exClock exRegistry)) \<and>
   ''/w/c'' \<notin> projectPath ` set (collectActiveSessions exExt exClock exRegistry) \<and>
   length (collectActiveSessions exExt exClock exRegistry) \<le> length exRegistry"
proof -
  have h: "distinct (map fst exRegistry)" by code_simp
  note t = one_session_per_workspace [OF h, of exExt exClock]
  have e: "(''/w/c'', exState ''/w/c'' ''gamma'' False) \<in> set exRegistry" by code_simp
  have n: "\<not> dp_hasActiveSession (project (snd (''/w/c'', exState ''/w/c'' ''gamma'' False)))"
    by code_simp
  from t have "\<forall>e \<in> set exRegistry. \<not> dp_hasActiveSession (project (snd e)) \<longrightarrow>
      fst e \<notin> projectPath ` set (collectActiveSessions exExt exClock exRegistry)" by blast
  with e n have "fst (''/w/c'', exState ''/w/c'' ''gamma'' False) \<notin>
      projectPath ` set (collectActiveSessions exExt exClock exRegistry)" by blast
  then have c: "''/w/c'' \<notin> projectPath ` set (collectActiveSessions exExt exClock exRegistry)"
    by simp
  from t have d: "distinct (map projectPath (collectActiveSessions exExt exClock exRegistry))"
    and l: "length (collectActiveSessions exExt exClock exRegistry) \<le> length exRegistry"
    by blast+
  from h d c l show ?thesis by blast
qed

text \<open>
  Claim C3. With a consistent \<^verbatim>\<open>localeCompare\<close>, the list that
  \<open>collectActiveSessions\<close> returns is ordered: no session with \<^verbatim>\<open>isCurrentlyActive\<close>
  false stands before one with it true, and two sessions with the same flag stand in
  ascending order of the workspace name.
\<close>

theorem sessions_ordered:
  assumes "consistent (localeCompare ext)"
  shows "sorted_wrt
           (\<lambda>a b. (isCurrentlyActive b \<longrightarrow> isCurrentlyActive a) \<and>
                  (isCurrentlyActive a = isCurrentlyActive b \<longrightarrow>
                     localeCompare ext (projectName a) (projectName b) \<le> 0))
           (collectActiveSessions ext clock reg)"
proof -
  have "sorted_wrt (\<lambda>a b. compareSessions (localeCompare ext) a b \<le> 0)
          (collectActiveSessions ext clock reg)"
    unfolding collectActiveSessions_def
    by (rule sorted_js_sort [OF consistent_compareSessions [OF assms]])
  then show ?thesis
    by (rule sorted_wrt_mono_rel [rotated]) (auto simp: compareSessions_def split: if_splits)
qed

lemma codeCompare_total: "codeCompare a b \<le> 0 \<or> codeCompare b a \<le> 0"
  by (induction a b rule: codeCompare.induct) auto

lemma codeCompare_trans:
  "codeCompare a b \<le> 0 \<Longrightarrow> codeCompare b c \<le> 0 \<Longrightarrow> codeCompare a c \<le> 0"
proof (induction a b arbitrary: c rule: codeCompare.induct)
  case 1
  then show ?case by simp
next
  case (2 y ys)
  then show ?case by (cases c) auto
next
  case (3 x xs)
  then show ?case by simp
next
  case (4 x xs y ys)
  show ?case
  proof (cases c)
    case Nil
    with 4(3) show ?thesis by simp
  next
    case (Cons z zs)
    show ?thesis
    proof (cases "(of_char x :: nat) = of_char y")
      case True
      note xy = this
      show ?thesis
      proof (cases "(of_char y :: nat) = of_char z")
        case True
        with xy 4 Cons show ?thesis by simp
      next
        case False
        with xy 4(3) Cons show ?thesis by (simp split: if_splits)
      qed
    next
      case False
      with 4(2) have lt: "(of_char x :: nat) < of_char y" by (simp split: if_splits)
      from 4(3) Cons have "(of_char y :: nat) \<le> of_char z" by (simp split: if_splits)
      with lt Cons show ?thesis by simp
    qed
  qed
qed

lemma consistent_codeCompare: "consistent codeCompare"
  unfolding consistent_def using codeCompare_total codeCompare_trans by blast

text \<open>The example registry under the character-code comparator.\<close>

theorem sessions_ordered_witness:
  "consistent (localeCompare exExt) \<and>
   map projectName (collectActiveSessions exExt exClock exRegistry) = [''alpha'', ''beta'', ''delta''] \<and>
   sorted_wrt
     (\<lambda>a b. (isCurrentlyActive b \<longrightarrow> isCurrentlyActive a) \<and>
            (isCurrentlyActive a = isCurrentlyActive b \<longrightarrow>
               localeCompare exExt (projectName a) (projectName b) \<le> 0))
     (collectActiveSessions exExt exClock exRegistry)"
proof -
  have "localeCompare exExt = codeCompare" by (simp add: exExt_def)
  then have h: "consistent (localeCompare exExt)" using consistent_codeCompare by simp
  have v: "map projectName (collectActiveSessions exExt exClock exRegistry) =
           [''alpha'', ''beta'', ''delta'']" by code_simp
  show ?thesis
    by (rule conjI [OF h conjI [OF v sessions_ordered [OF h, of exClock exRegistry]]])
qed

lemma collect_flags:
  "s \<in> set (collectActiveSessions ext clock reg) \<Longrightarrow> isCurrentlyActive s \<and> hasActiveSession s"
  unfolding collectActiveSessions_def set_js_sort by (rule allActiveSessions_flags)

text \<open>
  Claim C10. Every session that \<open>collectActiveSessions\<close> returns has
  \<^verbatim>\<open>isCurrentlyActive\<close> and \<^verbatim>\<open>hasActiveSession\<close> true, and the returned list is the
  sessions sorted by the comparison of the workspace names alone.
\<close>

theorem sessions_all_active:
  "(\<forall>s \<in> set (collectActiveSessions ext clock reg). isCurrentlyActive s \<and> hasActiveSession s) \<and>
   collectActiveSessions ext clock reg =
     js_sort (\<lambda>a b. localeCompare ext (projectName a) (projectName b))
       (allActiveSessions ext clock reg)"
proof
  show "\<forall>s \<in> set (collectActiveSessions ext clock reg). isCurrentlyActive s \<and> hasActiveSession s"
    using collect_flags by blast
  show "collectActiveSessions ext clock reg =
     js_sort (\<lambda>a b. localeCompare ext (projectName a) (projectName b))
       (allActiveSessions ext clock reg)"
    unfolding collectActiveSessions_def
    by (rule js_sort_cong) (auto simp: compareSessions_def dest: allActiveSessions_flags)
qed

text \<open>The three sessions of the example registry.\<close>

theorem sessions_all_active_witness:
  "length (collectActiveSessions exExt exClock exRegistry) = 3 \<and>
   list_all (\<lambda>s. isCurrentlyActive s \<and> hasActiveSession s)
     (collectActiveSessions exExt exClock exRegistry) \<and>
   collectActiveSessions exExt exClock exRegistry =
     js_sort (\<lambda>a b. localeCompare exExt (projectName a) (projectName b))
       (allActiveSessions exExt exClock exRegistry)"
proof -
  have v: "length (collectActiveSessions exExt exClock exRegistry) = 3" by code_simp
  note t = sessions_all_active [of exExt exClock exRegistry]
  from t have a: "list_all (\<lambda>s. isCurrentlyActive s \<and> hasActiveSession s)
     (collectActiveSessions exExt exClock exRegistry)"
    unfolding list_all_iff by (rule conjunct1)
  from v a t show ?thesis by blast
qed


section \<open>Claims about the selected work item\<close>

text \<open>
  Claim C2. A registered workspace with a process, a spec with a task in progress and a
  bug whose status is analyzing, fixing or verifying has exactly one session in the
  snapshot, and it is the spec variant of a spec with a task in progress.
\<close>

theorem spec_preferred_over_bug:
  assumes "distinct (map fst reg)" and "(path, st) \<in> set reg"
    and "dp_hasActiveSession (project st)"
    and "sp \<in> set (getAllSpecs ext (parser st))" and "hasInProgress sp"
    and "b \<in> set (getAllBugs ext (parser st))" and "isActiveBug b"
  shows "\<exists>s. filter (\<lambda>s. projectPath s = path) (collectActiveSessions ext clock reg) = [s] \<and>
             sessionType s = ''spec'' \<and> isAdHoc (variant s) = None \<and>
             (\<exists>sp' \<in> set (getAllSpecs ext (parser st)).
                hasInProgress sp' \<and> specName (variant s) = spec_name sp')"
proof -
  from mostRecent_prefers_spec [OF assms(4,5)] obtain sp'
    where sp': "sp' \<in> set (getAllSpecs ext (parser st))" "hasInProgress sp'"
      and m: "mostRecent (getAllSpecs ext (parser st)) (getAllBugs ext (parser st)) =
              Some (specItem 100 sp')"
    by blast
  have "activeSession ext clock path st = Some (specSession path st (specItem 100 sp') sp')"
    by (rule activeSession_spec [OF assms(3) m]) (simp add: specItem_def)
  then have "filter (\<lambda>s. projectPath s = path) (collectActiveSessions ext clock reg) =
             [specSession path st (specItem 100 sp') sp']"
    using sessions_of_path [OF assms(1,2), of ext clock] by simp
  moreover have "sessionType (specSession path st (specItem 100 sp') sp') = ''spec''"
    by (simp add: sessionType_def specSession_def)
  moreover have "isAdHoc (variant (specSession path st (specItem 100 sp') sp')) = None"
    by (simp add: specSession_def)
  moreover have "specName (variant (specSession path st (specItem 100 sp') sp')) = spec_name sp'"
    by (simp add: specSession_def)
  ultimately show ?thesis using sp' by blast
qed

text \<open>Workspace \<open>/w/a\<close> of the example: its bug is newer than its spec.\<close>

theorem spec_preferred_over_bug_witness:
  "distinct (map fst exRegistry) \<and>
   (''/w/a'', exState ''/w/a'' ''alpha'' True) \<in> set exRegistry \<and>
   dp_hasActiveSession (project (exState ''/w/a'' ''alpha'' True)) \<and>
   exSpecA \<in> set (getAllSpecs exExt (parser (exState ''/w/a'' ''alpha'' True))) \<and>
   hasInProgress exSpecA \<and>
   exBugA \<in> set (getAllBugs exExt (parser (exState ''/w/a'' ''alpha'' True))) \<and>
   isActiveBug exBugA \<and>
   (\<exists>s. filter (\<lambda>s. projectPath s = ''/w/a'') (collectActiveSessions exExt exClock exRegistry) = [s] \<and>
        sessionType s = ''spec'' \<and> isAdHoc (variant s) = None \<and>
        (\<exists>sp' \<in> set (getAllSpecs exExt (parser (exState ''/w/a'' ''alpha'' True))).
           hasInProgress sp' \<and> specName (variant s) = spec_name sp'))"
proof -
  have h1: "distinct (map fst exRegistry)" by code_simp
  have h2: "(''/w/a'', exState ''/w/a'' ''alpha'' True) \<in> set exRegistry" by code_simp
  have h3: "dp_hasActiveSession (project (exState ''/w/a'' ''alpha'' True))" by code_simp
  have h4: "exSpecA \<in> set (getAllSpecs exExt (parser (exState ''/w/a'' ''alpha'' True)))"
    by (simp add: exExt_def exState_def)
  have h5: "hasInProgress exSpecA" by code_simp
  have h6: "exBugA \<in> set (getAllBugs exExt (parser (exState ''/w/a'' ''alpha'' True)))"
    by (simp add: exExt_def exState_def)
  have h7: "isActiveBug exBugA" by code_simp
  show ?thesis
    using h1 h2 h3 h4 h5 h6 h7 spec_preferred_over_bug [OF h1 h2 h3 h4 h5 h6 h7, of exClock]
    by (intro conjI)
qed

text \<open>
  Claim C5. When the selected work item of a workspace is a bug, the session is the bug
  variant, its next command is the entry of the status table for the status of the bug, and
  its severity is the severity of the report of the bug, absent when that is absent. The
  table maps reported and analyzing to the analyze command, fixing to the fix command,
  verifying and fixed to the verify command, each followed by the name of the bug, and
  resolved to the empty string.
\<close>

theorem bug_session_next_command:
  assumes "distinct (map fst reg)" and "(path, st) \<in> set reg"
    and "dp_hasActiveSession (project st)"
    and "mostRecent (getAllSpecs ext (parser st)) (getAllBugs ext (parser st)) = Some w"
    and "wi_item w = BugItem b"
  shows "(\<exists>s. filter (\<lambda>s. projectPath s = path) (collectActiveSessions ext clock reg) = [s] \<and>
              sessionType s = ''bug'' \<and> bugName (variant s) = bug_name b \<and>
              bugStatus (variant s) = bug_status b \<and>
              nextCommand (variant s) = nextCommandFor (bug_status b) (bug_name b) \<and>
              bugSeverity (variant s) =
                (case bug_report b of None \<Rightarrow> None | Some r \<Rightarrow> severity r)) \<and>
         (\<forall>n. nextCommandFor ''reported'' n = ''/bug-analyze '' @ n \<and>
              nextCommandFor ''analyzing'' n = ''/bug-analyze '' @ n \<and>
              nextCommandFor ''fixing'' n = ''/bug-fix '' @ n \<and>
              nextCommandFor ''verifying'' n = ''/bug-verify '' @ n \<and>
              nextCommandFor ''fixed'' n = ''/bug-verify '' @ n \<and>
              nextCommandFor ''resolved'' n = [])"
proof
  have "activeSession ext clock path st = Some (bugSession path st w b)"
    by (rule activeSession_bug [OF assms(3,4,5)])
  then have "filter (\<lambda>s. projectPath s = path) (collectActiveSessions ext clock reg) =
             [bugSession path st w b]"
    using sessions_of_path [OF assms(1,2), of ext clock] by simp
  moreover have "sessionType (bugSession path st w b) = ''bug''"
    by (simp add: sessionType_def bugSession_def)
  moreover have "variant (bugSession path st w b) =
      BugVariant (bug_name b) (bug_status b) (severityOf b)
        (nextCommandFor (bug_status b) (bug_name b))"
    by (simp add: bugSession_def)
  ultimately show "\<exists>s. filter (\<lambda>s. projectPath s = path) (collectActiveSessions ext clock reg) = [s] \<and>
              sessionType s = ''bug'' \<and> bugName (variant s) = bug_name b \<and>
              bugStatus (variant s) = bug_status b \<and>
              nextCommand (variant s) = nextCommandFor (bug_status b) (bug_name b) \<and>
              bugSeverity (variant s) =
                (case bug_report b of None \<Rightarrow> None | Some r \<Rightarrow> severity r)"
    by (simp add: severityOf_def)
next
  show "\<forall>n. nextCommandFor ''reported'' n = ''/bug-analyze '' @ n \<and>
              nextCommandFor ''analyzing'' n = ''/bug-analyze '' @ n \<and>
              nextCommandFor ''fixing'' n = ''/bug-fix '' @ n \<and>
              nextCommandFor ''verifying'' n = ''/bug-verify '' @ n \<and>
              nextCommandFor ''fixed'' n = ''/bug-verify '' @ n \<and>
              nextCommandFor ''resolved'' n = []"
    by (simp add: nextCommandFor_def)
qed

text \<open>Workspace \<open>/w/d\<close> of the example.\<close>

theorem bug_session_next_command_witness:
  "distinct (map fst exRegistry) \<and>
   (''/w/d'', exState ''/w/d'' ''delta'' True) \<in> set exRegistry \<and>
   dp_hasActiveSession (project (exState ''/w/d'' ''delta'' True)) \<and>
   mostRecent (getAllSpecs exExt (parser (exState ''/w/d'' ''delta'' True)))
     (getAllBugs exExt (parser (exState ''/w/d'' ''delta'' True))) = Some (bugItem 90 exBugD) \<and>
   wi_item (bugItem 90 exBugD) = BugItem exBugD \<and>
   (\<exists>s. filter (\<lambda>s. projectPath s = ''/w/d'') (collectActiveSessions exExt exClock exRegistry) = [s] \<and>
        sessionType s = ''bug'' \<and> bugName (variant s) = ''leak'' \<and>
        bugStatus (variant s) = ''verifying'' \<and>
        nextCommand (variant s) = ''/bug-verify leak'' \<and>
        bugSeverity (variant s) = Some ''critical'')"
proof -
  have h1: "distinct (map fst exRegistry)" by code_simp
  have h2: "(''/w/d'', exState ''/w/d'' ''delta'' True) \<in> set exRegistry" by code_simp
  have h3: "dp_hasActiveSession (project (exState ''/w/d'' ''delta'' True))" by code_simp
  have h4: "mostRecent (getAllSpecs exExt (parser (exState ''/w/d'' ''delta'' True)))
     (getAllBugs exExt (parser (exState ''/w/d'' ''delta'' True))) = Some (bugItem 90 exBugD)"
    by code_simp
  have h5: "wi_item (bugItem 90 exBugD) = BugItem exBugD" by (simp add: bugItem_def)
  have b: "bug_name exBugD = ''leak''" "bug_status exBugD = ''verifying''"
    "bug_report exBugD = Some \<lparr>severity = Some ''critical''\<rparr>"
    by (simp_all add: exBugD_def)
  from bug_session_next_command [OF h1 h2 h3 h4 h5, of exClock] obtain s
    where f: "filter (\<lambda>s. projectPath s = ''/w/d'')
                (collectActiveSessions exExt exClock exRegistry) = [s]"
      and ty: "sessionType s = ''bug''" "bugName (variant s) = bug_name exBugD"
        "bugStatus (variant s) = bug_status exBugD"
      and nc: "nextCommand (variant s) = nextCommandFor (bug_status exBugD) (bug_name exBugD)"
      and sv: "bugSeverity (variant s) =
                (case bug_report exBugD of None \<Rightarrow> None | Some r \<Rightarrow> severity r)"
      and tb: "\<forall>n. nextCommandFor ''verifying'' n = ''/bug-verify '' @ n"
    by blast
  from nc tb b have "nextCommand (variant s) = ''/bug-verify leak''" by simp
  moreover from sv b have "bugSeverity (variant s) = Some ''critical''" by simp
  ultimately
  have "\<exists>s. filter (\<lambda>s. projectPath s = ''/w/d'')
               (collectActiveSessions exExt exClock exRegistry) = [s] \<and>
        sessionType s = ''bug'' \<and> bugName (variant s) = ''leak'' \<and>
        bugStatus (variant s) = ''verifying'' \<and>
        nextCommand (variant s) = ''/bug-verify leak'' \<and>
        bugSeverity (variant s) = Some ''critical''"
    using f ty b by simp
  with h1 h2 h3 h4 h5 show ?thesis by (intro conjI)
qed



text \<open>
  Claim C7. A registered workspace with a process whose list of work items is empty after
  the fallback has exactly one session in the snapshot: the spec variant marked ad-hoc with
  the fixed placeholder task. In such a workspace every spec is completed and has no task
  in progress, and every bug is resolved.
\<close>

theorem ad_hoc_session:
  assumes "distinct (map fst reg)" and "(path, st) \<in> set reg"
    and "dp_hasActiveSession (project st)"
    and "activeWorkItems (getAllSpecs ext (parser st)) (getAllBugs ext (parser st)) = []"
  shows "(\<exists>s. filter (\<lambda>s. projectPath s = path) (collectActiveSessions ext clock reg) = [s] \<and>
              sessionType s = ''spec'' \<and> isAdHoc (variant s) = Some True \<and>
              specName (variant s) = ''ad-hoc-session'' \<and>
              task (variant s) = Task ''session'' ''Active Claude session'' False [] None) \<and>
         (\<forall>sp \<in> set (getAllSpecs ext (parser st)).
            spec_status sp = ''completed'' \<and> \<not> hasInProgress sp) \<and>
         (\<forall>b \<in> set (getAllBugs ext (parser st)). bug_status b = ''resolved'')"
proof (intro conjI)
  have "activeSession ext clock path st = Some (adHocSession clock path st)"
    by (rule activeSession_adHoc [OF assms(3,4)])
  then have "filter (\<lambda>s. projectPath s = path) (collectActiveSessions ext clock reg) =
             [adHocSession clock path st]"
    using sessions_of_path [OF assms(1,2), of ext clock] by simp
  then show "\<exists>s. filter (\<lambda>s. projectPath s = path) (collectActiveSessions ext clock reg) = [s] \<and>
              sessionType s = ''spec'' \<and> isAdHoc (variant s) = Some True \<and>
              specName (variant s) = ''ad-hoc-session'' \<and>
              task (variant s) = Task ''session'' ''Active Claude session'' False [] None"
    by (simp add: sessionType_def adHocSession_def)
next
  show "\<forall>sp \<in> set (getAllSpecs ext (parser st)).
            spec_status sp = ''completed'' \<and> \<not> hasInProgress sp"
    using assms(4) unfolding activeWorkItems_empty_iff by blast
next
  show "\<forall>b \<in> set (getAllBugs ext (parser st)). bug_status b = ''resolved''"
    using assms(4) unfolding activeWorkItems_empty_iff by blast
qed

text \<open>Workspace \<open>/w/b\<close> of the example.\<close>

theorem ad_hoc_session_witness:
  "distinct (map fst exRegistry) \<and>
   (''/w/b'', exState ''/w/b'' ''beta'' True) \<in> set exRegistry \<and>
   dp_hasActiveSession (project (exState ''/w/b'' ''beta'' True)) \<and>
   activeWorkItems (getAllSpecs exExt (parser (exState ''/w/b'' ''beta'' True)))
     (getAllBugs exExt (parser (exState ''/w/b'' ''beta'' True))) = [] \<and>
   (\<exists>s. filter (\<lambda>s. projectPath s = ''/w/b'') (collectActiveSessions exExt exClock exRegistry) = [s] \<and>
        sessionType s = ''spec'' \<and> isAdHoc (variant s) = Some True \<and>
        specName (variant s) = ''ad-hoc-session'' \<and>
        task (variant s) = Task ''session'' ''Active Claude session'' False [] None) \<and>
   list_all (\<lambda>sp. spec_status sp = ''completed'' \<and> \<not> hasInProgress sp)
     (getAllSpecs exExt (parser (exState ''/w/b'' ''beta'' True))) \<and>
   list_all (\<lambda>b. bug_status b = ''resolved'')
     (getAllBugs exExt (parser (exState ''/w/b'' ''beta'' True)))"
proof -
  have h1: "distinct (map fst exRegistry)" by code_simp
  have h2: "(''/w/b'', exState ''/w/b'' ''beta'' True) \<in> set exRegistry" by code_simp
  have h3: "dp_hasActiveSession (project (exState ''/w/b'' ''beta'' True))" by code_simp
  have h4: "activeWorkItems (getAllSpecs exExt (parser (exState ''/w/b'' ''beta'' True)))
     (getAllBugs exExt (parser (exState ''/w/b'' ''beta'' True))) = []"
    by code_simp
  note t = ad_hoc_session [OF h1 h2 h3 h4, of exClock]
  show ?thesis
    unfolding list_all_iff
    by (rule conjI [OF h1 conjI [OF h2 conjI [OF h3 conjI [OF h4 t]]]])
qed


section \<open>Claims about the periodic rescan\<close>

lemma map_has_iff: "map_has reg k \<longleftrightarrow> k \<in> fst ` set reg"
  by (auto simp: map_has_def list_ex_iff)

lemma map_set_keys: "fst ` set (map_set reg k v) = insert k (fst ` set reg)"
  by (induction reg) auto

lemma addNewProjects_noop:
  "\<forall>d \<in> set ds. map_has reg (dp_path d) \<Longrightarrow> addNewProjects ext cs ds reg = (True, [], ds, reg)"
  by (induction ds) auto

lemma initializeProject_canonical:
  assumes "normalize_resolve ext (dp_path p) = dp_path p"
    and "initializeProject ext p reg = (True, p', reg1)"
  shows "p' = p" and "fst ` set reg1 = insert (dp_path p) (fst ` set reg)"
proof -
  from assms show "p' = p" by (auto simp: initializeProject_def Let_def split: if_splits)
  from assms have "reg1 = map_set reg (dp_path p)
      \<lparr>project = p, parser = dp_path p, watcher = dp_path p\<rparr>"
    by (auto simp: initializeProject_def Let_def split: if_splits)
  then show "fst ` set reg1 = insert (dp_path p) (fst ` set reg)"
    by (simp only: map_set_keys)
qed

lemma addNewProjects_canonical:
  assumes "\<forall>d \<in> set ds. normalize_resolve ext (dp_path d) = dp_path d"
    and "addNewProjects ext cs ds reg = (True, out, ds', reg')"
  shows "ds' = ds \<and> dp_path ` set ds \<subseteq> fst ` set reg' \<and> fst ` set reg \<subseteq> fst ` set reg'"
  using assms
proof (induction ds arbitrary: reg out ds' reg')
  case Nil
  then show ?case by simp
next
  case (Cons p ps)
  show ?case
  proof (cases "map_has reg (dp_path p)")
    case True
    obtain ok out0 ps0 reg0 where r: "addNewProjects ext cs ps reg = (ok, out0, ps0, reg0)"
      by (cases "addNewProjects ext cs ps reg")
    with True Cons.prems(2) have eq: "ok" "ds' = p # ps0" "reg' = reg0" by auto
    from Cons.IH [of reg out0 ps0 reg0] Cons.prems(1) r eq(1)
    have "ps0 = ps \<and> dp_path ` set ps \<subseteq> fst ` set reg0 \<and> fst ` set reg \<subseteq> fst ` set reg0"
      by simp
    with eq True show ?thesis by (auto simp: map_has_iff)
  next
    case False
    obtain started p' reg1 where i: "initializeProject ext p reg = (started, p', reg1)"
      by (cases "initializeProject ext p reg")
    with False Cons.prems(2) have st: "started" by (auto split: if_splits)
    obtain ok out0 ps0 reg0 where r: "addNewProjects ext cs ps reg1 = (ok, out0, ps0, reg0)"
      by (cases "addNewProjects ext cs ps reg1")
    with False i st Cons.prems(2) have eq: "ok" "ds' = p' # ps0" "reg' = reg0" by auto
    from Cons.prems(1) have c: "normalize_resolve ext (dp_path p) = dp_path p" by simp
    from i st have i': "initializeProject ext p reg = (True, p', reg1)" by simp
    note ip = initializeProject_canonical [OF c i']
    from Cons.IH [of reg1 out0 ps0 reg0] Cons.prems(1) r eq(1)
    have "ps0 = ps \<and> dp_path ` set ps \<subseteq> fst ` set reg0 \<and> fst ` set reg1 \<subseteq> fst ` set reg0"
      by simp
    with eq ip show ?thesis by auto
  qed
qed

lemma blankAdHocTime_fields:
  "isCurrentlyActive (blankAdHocTime s) = isCurrentlyActive s"
  "projectName (blankAdHocTime s) = projectName s"
  by (simp_all add: blankAdHocTime_def split: session_variant.splits option.splits bool.splits)

lemma compareSessions_blank:
  "compareSessions cmp (blankAdHocTime a) (blankAdHocTime b) = compareSessions cmp a b"
  by (simp add: compareSessions_def blankAdHocTime_fields)

lemma blank_js_sort:
  "map blankAdHocTime (js_sort (compareSessions cmp) xs) =
   js_sort (compareSessions cmp) (map blankAdHocTime xs)"
  using js_sort_map [of "compareSessions cmp" blankAdHocTime xs]
  by (simp add: compareSessions_blank)

lemma activeSession_blank:
  "map_option blankAdHocTime (activeSession ext c1 path st) =
   map_option blankAdHocTime (activeSession ext c2 path st)"
  by (simp add: activeSession_def Let_def adHocSession_def blankAdHocTime_def
      split: option.splits work_item_kind.splits)

lemma allActiveSessions_blank:
  "map blankAdHocTime (allActiveSessions ext c1 reg) =
   map blankAdHocTime (allActiveSessions ext c2 reg)"
proof (induction reg)
  case Nil
  then show ?case by simp
next
  case (Cons e reg)
  obtain path st where e: "e = (path, st)" by (cases e)
  show ?case
    using Cons e activeSession_blank [of ext c1 path st c2]
    by (cases "activeSession ext c1 path st"; cases "activeSession ext c2 path st") auto
qed

lemma collect_blank:
  "map blankAdHocTime (collectActiveSessions ext c2 reg) =
   map blankAdHocTime (collectActiveSessions ext c1 reg)"
  unfolding collectActiveSessions_def blank_js_sort
  by (simp only: allActiveSessions_blank [of ext c2 reg c1])

text \<open>
  Claim C4 fails as stated. A discovery that reports the path \<open>/w/e/\<close> makes the first
  pass register the workspace under the normalised key \<open>/w/e\<close>; the second pass looks the
  reported path up, misses, and sends a second new-project message. And with nothing changed
  at all, the snapshots of two passes differ in the time stamp of an ad-hoc session, which
  is the clock reading of each pass.
\<close>

theorem rescan_twice_counterexample:
  "fst (periodicRescan exSlashExt exClock exEmptyServer) \<and>
   snd (snd (periodicRescan exSlashExt exClock exEmptyServer)) = exSlashServer \<and>
   (1, NewProject (exProject ''/w/e'' ''epsilon'' True) [] [] []) \<in>
     set (fst (snd (periodicRescan exSlashExt exLaterClock exSlashServer))) \<and>
   snd (snd (periodicRescan exExt exClock exServer)) = exServer \<and>
   fst (snd (periodicRescan exExt exLaterClock exServer)) \<noteq>
     fst (snd (periodicRescan exExt exClock exServer))"
  by code_simp

lemma initializeProject_keys:
  assumes "initializeProject ext p reg = (ok, p', reg1)"
  shows "fst ` set reg \<subseteq> fst ` set reg1"
proof (cases ok)
  case True
  with assms have "reg1 = map_set reg (normalize_resolve ext (dp_path p))
      \<lparr>project = p', parser = normalize_resolve ext (dp_path p),
       watcher = normalize_resolve ext (dp_path p)\<rparr>"
    by (auto simp: initializeProject_def Let_def split: if_splits)
  then show ?thesis by (simp only: map_set_keys) blast
next
  case False
  with assms have "reg1 = reg" by (auto simp: initializeProject_def Let_def split: if_splits)
  then show ?thesis by simp
qed

lemma initializeProject_failed:
  "initializeProject ext p reg = (False, p', reg1) \<Longrightarrow> reg1 = reg"
  by (auto simp: initializeProject_def Let_def split: if_splits)

lemma addNewProjects_keys:
  "addNewProjects ext cs ds reg = (ok, out, ds', reg') \<Longrightarrow> fst ` set reg \<subseteq> fst ` set reg'"
proof (induction ds arbitrary: reg ok out ds' reg')
  case Nil
  then show ?case by simp
next
  case (Cons p ps)
  show ?case
  proof (cases "map_has reg (dp_path p)")
    case True
    obtain ok0 out0 ps0 reg0 where r: "addNewProjects ext cs ps reg = (ok0, out0, ps0, reg0)"
      by (cases "addNewProjects ext cs ps reg")
    with True Cons.prems have "reg' = reg0" by simp
    with Cons.IH [OF r] show ?thesis by simp
  next
    case False
    obtain started p' reg1 where i: "initializeProject ext p reg = (started, p', reg1)"
      by (cases "initializeProject ext p reg")
    note k = initializeProject_keys [OF i]
    show ?thesis
    proof (cases started)
      case f: False
      with False i Cons.prems have "reg' = reg1" by simp
      with k show ?thesis by simp
    next
      case t: True
      obtain ok0 out0 ps0 reg0 where r: "addNewProjects ext cs ps reg1 = (ok0, out0, ps0, reg0)"
        by (cases "addNewProjects ext cs ps reg1")
      with False i t Cons.prems have "reg' = reg0" by simp
      with Cons.IH [OF r] k show ?thesis by blast
    qed
  qed
qed

text \<open>A second run of the first loop on the registry that a first run left.\<close>

lemma addNewProjects_again:
  assumes "\<forall>d \<in> set ds. normalize_resolve ext (dp_path d) = dp_path d"
    and "addNewProjects ext cs ds reg = (ok, out, ds', reg')"
  shows "\<exists>ds''. addNewProjects ext cs ds reg' = (ok, [], ds'', reg')"
  using assms
proof (induction ds arbitrary: reg ok out ds' reg')
  case Nil
  then show ?case by simp
next
  case (Cons p ps)
  from Cons.prems(1) have c: "normalize_resolve ext (dp_path p) = dp_path p"
    and cs': "\<forall>d \<in> set ps. normalize_resolve ext (dp_path d) = dp_path d" by simp_all
  show ?case
  proof (cases "map_has reg (dp_path p)")
    case True
    obtain ok0 out0 ps0 reg0 where r: "addNewProjects ext cs ps reg = (ok0, out0, ps0, reg0)"
      by (cases "addNewProjects ext cs ps reg")
    with True Cons.prems(2) have eq: "ok = ok0" "reg' = reg0" by simp_all
    from addNewProjects_keys [OF r] True have h: "map_has reg0 (dp_path p)"
      unfolding map_has_iff by blast
    from Cons.IH [OF cs' r] obtain ds'' where "addNewProjects ext cs ps reg0 = (ok0, [], ds'', reg0)"
      by blast
    with h eq show ?thesis by simp
  next
    case False
    obtain started p' reg1 where i: "initializeProject ext p reg = (started, p', reg1)"
      by (cases "initializeProject ext p reg")
    show ?thesis
    proof (cases started)
      case f: False
      with False i Cons.prems(2) have eq: "ok = False" "reg' = reg1" by simp_all
      from i f have "reg1 = reg" by (simp add: initializeProject_failed)
      with eq False i f show ?thesis by simp
    next
      case t: True
      obtain ok0 out0 ps0 reg0 where r: "addNewProjects ext cs ps reg1 = (ok0, out0, ps0, reg0)"
        by (cases "addNewProjects ext cs ps reg1")
      with False i t Cons.prems(2) have eq: "ok = ok0" "reg' = reg0" by simp_all
      from i t have "initializeProject ext p reg = (True, p', reg1)" by simp
      from initializeProject_canonical(2) [OF c this] have "dp_path p \<in> fst ` set reg1" by simp
      with addNewProjects_keys [OF r] have h: "map_has reg0 (dp_path p)"
        unfolding map_has_iff by blast
      from Cons.IH [OF cs' r] obtain ds'' where "addNewProjects ext cs ps reg0 = (ok0, [], ds'', reg0)"
        by blast
      with h eq show ?thesis by simp
    qed
  qed
qed

lemma removeMissing_keeps:
  "removeMissing ext cs ds reg = (ok, out, reg') \<Longrightarrow> e \<in> set reg \<Longrightarrow>
   list_ex (\<lambda>p. dp_path p = fst e) ds \<Longrightarrow> e \<in> set reg'"
proof (induction reg arbitrary: ok out reg')
  case Nil
  then show ?case by simp
next
  case (Cons x reg)
  obtain path st where x: "x = (path, st)" by (cases x)
  obtain ok0 out0 kept where r: "removeMissing ext cs ds reg = (ok0, out0, kept)"
    by (cases "removeMissing ext cs ds reg")
  show ?case
  proof (cases "e = x")
    case True
    with Cons.prems x r show ?thesis by (auto split: if_splits)
  next
    case False
    with Cons.prems have "e \<in> set reg" by simp
    from Cons.IH [OF r this Cons.prems(3)] have "e \<in> set kept" .
    with Cons.prems(1,2) x r show ?thesis by (auto split: if_splits)
  qed
qed

text \<open>A second run of the second loop on the registry that a first run left.\<close>

lemma removeMissing_again:
  "removeMissing ext cs ds reg = (ok, out, reg') \<Longrightarrow> removeMissing ext cs ds reg' = (ok, [], reg')"
proof (induction reg arbitrary: ok out reg')
  case Nil
  then show ?case by simp
next
  case (Cons x reg)
  obtain path st where x: "x = (path, st)" by (cases x)
  obtain ok0 out0 kept where r: "removeMissing ext cs ds reg = (ok0, out0, kept)"
    by (cases "removeMissing ext cs ds reg")
  note ih = Cons.IH [OF r]
  show ?case
  proof (cases "list_ex (\<lambda>p. dp_path p = path) ds")
    case True
    with Cons.prems x r have "ok = ok0" "reg' = (path, st) # kept" by simp_all
    with True ih show ?thesis by simp
  next
    case False
    show ?thesis
    proof (cases "watcherStop ext (watcher st)")
      case t: True
      with False Cons.prems x r have "ok = ok0" "reg' = kept" by simp_all
      with ih show ?thesis by simp
    next
      case f: False
      with False Cons.prems x have "ok = False" "reg' = (path, st) # reg" by simp_all
      with False f show ?thesis by simp
    qed
  qed
qed

text \<open>
  Claim C4, amended. When every path that discovery reports is unchanged by
  \<^verbatim>\<open>normalize(resolve(p))\<close>, a second pass against the same collaborators ends as the
  first pass did and leaves the server as the first pass left it. It sends nothing but the
  active-sessions update of a pass that runs to its end: no new-project and no
  remove-project message. The snapshot of the second pass equals the snapshot of the first
  up to the time stamps of ad-hoc sessions.
\<close>

theorem rescan_idempotent:
  assumes "\<forall>d \<in> set (discoverProjects ext). normalize_resolve ext (dp_path d) = dp_path d"
    and "periodicRescan ext clock1 srv = (ok, out1, srv1)"
  shows "periodicRescan ext clock2 srv1 =
           (ok,
            (if ok then broadcast (clients srv1)
                          (ActiveSessionsUpdate (collectActiveSessions ext clock2 (projects srv1)))
             else []),
            srv1) \<and>
         (ok \<longrightarrow> (\<exists>pre. out1 =
            pre @ broadcast (clients srv)
                    (ActiveSessionsUpdate (collectActiveSessions ext clock1 (projects srv1))))) \<and>
         map blankAdHocTime (collectActiveSessions ext clock2 (projects srv1)) =
           map blankAdHocTime (collectActiveSessions ext clock1 (projects srv1))"
proof -
  let ?ds = "discoverProjects ext"
  obtain ok1 o1 ds' reg1
    where a: "addNewProjects ext (clients srv) ?ds (projects srv) = (ok1, o1, ds', reg1)"
    by (cases "addNewProjects ext (clients srv) ?ds (projects srv)")
  from addNewProjects_again [OF assms(1) a] obtain ds''
    where a2: "addNewProjects ext (clients srv) ?ds reg1 = (ok1, [], ds'', reg1)" by blast
  have first: "periodicRescan ext clock2 srv1 =
           (ok,
            (if ok then broadcast (clients srv1)
                          (ActiveSessionsUpdate (collectActiveSessions ext clock2 (projects srv1)))
             else []),
            srv1) \<and>
         (ok \<longrightarrow> (\<exists>pre. out1 =
            pre @ broadcast (clients srv)
                    (ActiveSessionsUpdate (collectActiveSessions ext clock1 (projects srv1)))))"
  proof (cases ok1)
    case False
    with assms(2) a have r: "ok = False" "srv1 = srv\<lparr>projects := reg1\<rparr>"
      by (simp_all add: periodicRescan_def)
    with a2 False show ?thesis by (simp add: periodicRescan_def)
  next
    case True
    with a have a': "addNewProjects ext (clients srv) ?ds (projects srv) = (True, o1, ds', reg1)"
      by simp
    from addNewProjects_canonical [OF assms(1) a']
    have ds': "ds' = ?ds" and sub: "dp_path ` set ?ds \<subseteq> fst ` set reg1" by blast+
    obtain ok2 o2 reg2 where r: "removeMissing ext (clients srv) ?ds reg1 = (ok2, o2, reg2)"
      by (cases "removeMissing ext (clients srv) ?ds reg1")
    note r2 = removeMissing_again [OF r]
    have has: "\<forall>d \<in> set ?ds. map_has reg2 (dp_path d)"
    proof
      fix d assume d: "d \<in> set ?ds"
      with sub obtain e where e: "e \<in> set reg1" "fst e = dp_path d" by force
      with d have "list_ex (\<lambda>p. dp_path p = fst e) ?ds" by (auto simp: list_ex_iff)
      from removeMissing_keeps [OF r e(1) this] e(2) show "map_has reg2 (dp_path d)"
        unfolding map_has_iff by force
    qed
    note a3 = addNewProjects_noop [OF has, of ext "clients srv"]
    from assms(2) a True ds' r
    have res: "ok = ok2" "srv1 = srv\<lparr>projects := reg2\<rparr>"
      "ok2 \<Longrightarrow> out1 = o1 @ o2 @ broadcast (clients srv)
                 (ActiveSessionsUpdate (collectActiveSessions ext clock1 reg2))"
      by (auto simp: periodicRescan_def split: if_splits)
    show ?thesis
    proof (cases ok2)
      case f: False
      with res a3 r2 show ?thesis by (simp add: periodicRescan_def)
    next
      case t: True
      with res(3) have "\<exists>pre. out1 = pre @ broadcast (clients srv)
                    (ActiveSessionsUpdate (collectActiveSessions ext clock1 reg2))"
        by (intro exI [of _ "o1 @ o2"]) simp
      with t res(1,2) a3 r2 show ?thesis by (simp add: periodicRescan_def)
    qed
  qed
  with collect_blank [of ext clock2 "projects srv1" clock1] show ?thesis by blast
qed

text \<open>The example discovery, first on an empty registry, then again.\<close>

theorem rescan_idempotent_witness:
  "list_all (\<lambda>d. normalize_resolve exExt (dp_path d) = dp_path d) (discoverProjects exExt) \<and>
   periodicRescan exExt exClock exEmptyServer =
     (True, fst (snd (periodicRescan exExt exClock exEmptyServer)), exServer) \<and>
   periodicRescan exExt exLaterClock exServer =
     (True,
      broadcast (clients exServer)
        (ActiveSessionsUpdate (collectActiveSessions exExt exLaterClock (projects exServer))),
      exServer) \<and>
   map blankAdHocTime (collectActiveSessions exExt exLaterClock (projects exServer)) =
     map blankAdHocTime (collectActiveSessions exExt exClock (projects exServer))"
proof -
  have c: "list_all (\<lambda>d. normalize_resolve exExt (dp_path d) = dp_path d) (discoverProjects exExt)"
    by code_simp
  have f: "fst (periodicRescan exExt exClock exEmptyServer)"
    and s: "snd (snd (periodicRescan exExt exClock exEmptyServer)) = exServer"
    by code_simp+
  have r: "periodicRescan exExt exClock exEmptyServer =
     (True, fst (snd (periodicRescan exExt exClock exEmptyServer)), exServer)"
    using f s by (cases "periodicRescan exExt exClock exEmptyServer") simp
  from c have c': "\<forall>d \<in> set (discoverProjects exExt). normalize_resolve exExt (dp_path d) = dp_path d"
    by (simp only: list_all_iff)
  from rescan_idempotent [OF c' r, of exLaterClock] c r show ?thesis by simp
qed

lemma map_set_distinct: "distinct (map fst reg) \<Longrightarrow> distinct (map fst (map_set reg k v))"
proof (induction reg)
  case Nil
  then show ?case by simp
next
  case (Cons e reg)
  have "fst ` set (map_set reg k v) = insert k (fst ` set reg)" by (rule map_set_keys)
  with Cons show ?case by auto
qed

lemma initializeProject_distinct:
  "initializeProject ext p reg = (ok, p', reg1) \<Longrightarrow> distinct (map fst reg) \<Longrightarrow>
   distinct (map fst reg1)"
  by (auto simp: initializeProject_def Let_def map_set_distinct split: if_splits)

lemma addNewProjects_distinct:
  "addNewProjects ext cs ds reg = (ok, out, ds', reg') \<Longrightarrow> distinct (map fst reg) \<Longrightarrow>
   distinct (map fst reg')"
proof (induction ds arbitrary: reg ok out ds' reg')
  case Nil
  then show ?case by simp
next
  case (Cons p ps)
  show ?case
  proof (cases "map_has reg (dp_path p)")
    case True
    obtain ok0 out0 ps0 reg0 where r: "addNewProjects ext cs ps reg = (ok0, out0, ps0, reg0)"
      by (cases "addNewProjects ext cs ps reg")
    with True Cons.prems(1) have "reg' = reg0" by simp
    with Cons.IH [OF r Cons.prems(2)] show ?thesis by simp
  next
    case False
    obtain started p' reg1 where i: "initializeProject ext p reg = (started, p', reg1)"
      by (cases "initializeProject ext p reg")
    note d1 = initializeProject_distinct [OF i Cons.prems(2)]
    show ?thesis
    proof (cases started)
      case f: False
      with False i Cons.prems(1) have "reg' = reg1" by simp
      with d1 show ?thesis by simp
    next
      case t: True
      obtain ok0 out0 ps0 reg0 where r: "addNewProjects ext cs ps reg1 = (ok0, out0, ps0, reg0)"
        by (cases "addNewProjects ext cs ps reg1")
      with False i t Cons.prems(1) have "reg' = reg0" by simp
      with Cons.IH [OF r d1] show ?thesis by simp
    qed
  qed
qed

lemma removeMissing_distinct:
  "removeMissing ext cs ds reg = (ok, out, reg') \<Longrightarrow> distinct (map fst reg) \<Longrightarrow>
   set reg' \<subseteq> set reg \<and> distinct (map fst reg')"
proof (induction reg arbitrary: ok out reg')
  case Nil
  then show ?case by simp
next
  case (Cons x reg)
  obtain path st where x: "x = (path, st)" by (cases x)
  obtain ok0 out0 kept where r: "removeMissing ext cs ds reg = (ok0, out0, kept)"
    by (cases "removeMissing ext cs ds reg")
  from Cons.prems(2) have d: "distinct (map fst reg)" and n: "path \<notin> fst ` set reg"
    using x by simp_all
  from Cons.IH [OF r d] have ih: "set kept \<subseteq> set reg" "distinct (map fst kept)" by blast+
  from ih(1) n have "path \<notin> fst ` set kept" by blast
  with Cons.prems x r ih show ?case by (auto split: if_splits)
qed

text \<open>
  The keys of the registry stay distinct through a rescan, whatever its outcome: the
  hypothesis of the claims about the snapshot is an invariant of the server.
\<close>

lemma periodicRescan_distinct:
  assumes "periodicRescan ext clock srv = (ok, out, srv')"
    and "distinct (map fst (projects srv))"
  shows "distinct (map fst (projects srv'))"
proof -
  obtain ok1 o1 ds' reg1
    where a: "addNewProjects ext (clients srv) (discoverProjects ext) (projects srv) =
              (ok1, o1, ds', reg1)"
    by (cases "addNewProjects ext (clients srv) (discoverProjects ext) (projects srv)")
  note d1 = addNewProjects_distinct [OF a assms(2)]
  obtain ok2 o2 reg2 where r: "removeMissing ext (clients srv) ds' reg1 = (ok2, o2, reg2)"
    by (cases "removeMissing ext (clients srv) ds' reg1")
  from removeMissing_distinct [OF r d1] have d2: "distinct (map fst reg2)" by blast
  from assms(1) a r have "projects srv' = reg1 \<or> projects srv' = reg2"
    by (auto simp: periodicRescan_def split: if_splits)
  with d1 d2 show ?thesis by auto
qed

section \<open>Claims about the tunnel stop route and server stop\<close>

lemma stopWatchers_ok:
  "fst (stopWatchers ext reg) \<Longrightarrow>
   snd (stopWatchers ext reg) = map (\<lambda>e. WatcherStop (watcher (snd e))) reg"
  by (induction reg) (auto split: prod.splits if_splits)

lemma stopWatchers_prefix:
  "prefix (snd (stopWatchers ext reg)) (map (\<lambda>e. WatcherStop (watcher (snd e))) reg)"
  by (induction reg) (auto split: prod.splits)

lemma stopWatchers_all_ok:
  "fst (stopWatchers ext reg) \<longleftrightarrow> (\<forall>e \<in> set reg. watcherStop ext (watcher (snd e)))"
  by (induction reg) (auto split: prod.splits if_splits)

lemma stopWatchers_steps:
  "x \<in> set (snd (stopWatchers ext reg)) \<Longrightarrow> \<exists>p. x = WatcherStop p"
  by (induction reg) (auto split: prod.splits if_splits)

text \<open>
  Claim C8 fails as stated. In the example server no tunnel is active, because there is no
  tunnel manager, and the stop route replies with the error 404.
\<close>

theorem tunnel_stop_without_manager_counterexample:
  "\<not> fst (getTunnelStatus exServer) \<and>
   tunnelStopRoute exStopTunnel exServer =
     (Failure 404 ''No tunnel manager available'', [], exServer)"
  by (simp add: getTunnelStatus_def tunnelStopRoute_def exServer_def)

text \<open>
  Claim C8, amended. Without a tunnel manager the stop route replies 404 "No tunnel manager
  available", sends nothing and leaves the server unchanged, and \<open>stop\<close> makes no tunnel
  call. With a manager whose \<^verbatim>\<open>stopTunnel\<close> resolves and leaves the manager as it is, as
  for a tunnel that is not active, the route replies success, broadcasts the tunnel-stopped
  message and leaves the server unchanged.
\<close>

theorem tunnel_stop_route:
  "(tunnelManager srv = None \<longrightarrow>
      tunnelStopRoute stopTunnel srv = (Failure 404 ''No tunnel manager available'', [], srv) \<and>
      StopTunnel \<notin> set (fst (snd (stop ext stopTunnel appClose srv)))) \<and>
   (\<forall>tm. tunnelManager srv = Some tm \<and> stopTunnel tm = (True, tm) \<longrightarrow>
      tunnelStopRoute stopTunnel srv = (Success, broadcast (clients srv) TunnelStopped, srv))"
proof (intro conjI impI allI)
  assume "tunnelManager srv = None"
  then show "tunnelStopRoute stopTunnel srv = (Failure 404 ''No tunnel manager available'', [], srv)"
    by (simp add: tunnelStopRoute_def)
next
  assume n: "tunnelManager srv = None"
  have "StopTunnel \<notin> set (snd (stopWatchers ext (projects srv)))"
    using stopWatchers_steps by fastforce
  with n show "StopTunnel \<notin> set (fst (snd (stop ext stopTunnel appClose srv)))"
    by (auto simp: stop_def Let_def closeClients_def split: prod.splits option.splits)
next
  fix tm assume "tunnelManager srv = Some tm \<and> stopTunnel tm = (True, tm)"
  then show "tunnelStopRoute stopTunnel srv = (Success, broadcast (clients srv) TunnelStopped, srv)"
    by (simp add: tunnelStopRoute_def)
qed


text \<open>The example server without a manager, and with an idle one.\<close>

theorem tunnel_stop_route_witness:
  "tunnelManager exServer = None \<and>
   tunnelStopRoute exStopTunnel exServer =
     (Failure 404 ''No tunnel manager available'', [], exServer) \<and>
   StopTunnel \<notin> set (fst (snd (stop exExt exStopTunnel True exServer))) \<and>
   tunnelManager exTunnelServer = Some \<lparr>tm_active = False, tm_info = None\<rparr> \<and>
   exStopTunnel \<lparr>tm_active = False, tm_info = None\<rparr> =
     (True, \<lparr>tm_active = False, tm_info = None\<rparr>) \<and>
   tunnelStopRoute exStopTunnel exTunnelServer =
     (Success, broadcast (clients exTunnelServer) TunnelStopped, exTunnelServer) \<and>
   broadcast (clients exTunnelServer) TunnelStopped = [(1, TunnelStopped)]"
proof -
  have n: "tunnelManager exServer = None" by (simp add: exServer_def)
  have m: "tunnelManager exTunnelServer = Some \<lparr>tm_active = False, tm_info = None\<rparr>"
    by (simp add: exTunnelServer_def)
  have i: "exStopTunnel \<lparr>tm_active = False, tm_info = None\<rparr> =
     (True, \<lparr>tm_active = False, tm_info = None\<rparr>)"
    by (simp add: exStopTunnel_def)
  have b: "broadcast (clients exTunnelServer) TunnelStopped = [(1, TunnelStopped)]"
    by (simp add: broadcast_def exTunnelServer_def exServer_def)
  note t1 = tunnel_stop_route [of exServer exStopTunnel exExt True]
  note t2 = tunnel_stop_route [of exTunnelServer exStopTunnel exExt True]
  from t1 n have r1: "tunnelStopRoute exStopTunnel exServer =
     (Failure 404 ''No tunnel manager available'', [], exServer)"
    and r2: "StopTunnel \<notin> set (fst (snd (stop exExt exStopTunnel True exServer)))"
    by blast+
  from t2 m i have r3: "tunnelStopRoute exStopTunnel exTunnelServer =
     (Success, broadcast (clients exTunnelServer) TunnelStopped, exTunnelServer)"
    by blast
  from n r1 r2 m i r3 b show ?thesis by (intro conjI)
qed

lemma stop_cases:
  obtains (watcher_fails) ws where "stopWatchers ext (projects srv) = (False, ws)"
      "stop ext stopTunnel appClose srv =
         (False, (case rescanInterval srv of None \<Rightarrow> [] | Some h \<Rightarrow> [ClearInterval h]) @ ws, srv)"
  | (no_manager) "stopWatchers ext (projects srv) =
         (True, map (\<lambda>e. WatcherStop (watcher (snd e))) (projects srv))"
      "tunnelManager srv = None"
      "stop ext stopTunnel appClose srv = (appClose, teardownPlan srv, srv\<lparr>clients := []\<rparr>)"
  | (tunnel_fails) tm tm' where "stopWatchers ext (projects srv) =
         (True, map (\<lambda>e. WatcherStop (watcher (snd e))) (projects srv))"
      "tunnelManager srv = Some tm" "stopTunnel tm = (False, tm')"
      "stop ext stopTunnel appClose srv =
         (False,
          (case rescanInterval srv of None \<Rightarrow> [] | Some h \<Rightarrow> [ClearInterval h]) @
          map (\<lambda>e. WatcherStop (watcher (snd e))) (projects srv) @ [StopTunnel],
          srv\<lparr>tunnelManager := Some tm'\<rparr>)"
  | (all_run) tm tm' where "stopWatchers ext (projects srv) =
         (True, map (\<lambda>e. WatcherStop (watcher (snd e))) (projects srv))"
      "tunnelManager srv = Some tm" "stopTunnel tm = (True, tm')"
      "stop ext stopTunnel appClose srv =
         (appClose, teardownPlan srv, srv\<lparr>clients := [], tunnelManager := Some tm'\<rparr>)"
proof -
  obtain ok1 ws where sw: "stopWatchers ext (projects srv) = (ok1, ws)"
    by (cases "stopWatchers ext (projects srv)")
  show ?thesis
  proof (cases ok1)
    case False
    with sw show ?thesis by (intro watcher_fails [of ws]) (simp_all add: stop_def Let_def)
  next
    case True
    with sw have ws: "ws = map (\<lambda>e. WatcherStop (watcher (snd e))) (projects srv)"
      using stopWatchers_ok [of ext "projects srv"] by simp
    show ?thesis
    proof (cases "tunnelManager srv")
      case None
      with sw True ws show ?thesis
        by (intro no_manager) (simp_all add: stop_def Let_def teardownPlan_def)
    next
      case (Some tm)
      obtain ok2 tm' where st: "stopTunnel tm = (ok2, tm')" by (cases "stopTunnel tm")
      show ?thesis
      proof (cases ok2)
        case False
        with sw True ws Some st show ?thesis
          by (intro tunnel_fails [of tm tm']) (simp_all add: stop_def Let_def)
      next
        case t: True
        with sw True ws Some st show ?thesis
          by (intro all_run [of tm tm']) (simp_all add: stop_def Let_def teardownPlan_def)
      qed
    qed
  qed
qed

text \<open>
  Claim C9 fails as stated. \<open>stop\<close> clears the timer before it stops the watchers, and
  when the first watcher's stop rejects, no later step runs: the open client stays open.
\<close>

theorem stop_order_counterexample:
  "fst (snd (stop exExt exStopTunnel True exTunnelServer)) =
     [ClearInterval 7, WatcherStop ''/w/b'', WatcherStop ''/w/a'', WatcherStop ''/w/c'',
      WatcherStop ''/w/d'', StopTunnel, ClientClose 1, ClientsClear, AppClose] \<and>
   stop exFailingExt exStopTunnel True exTunnelServer =
     (False, [ClearInterval 7, WatcherStop ''/w/b''], exTunnelServer)"
  by code_simp

lemma stopWatchers_first_rejects:
  assumes "\<forall>x \<in> set before. watcherStop ext (watcher (snd x))"
    and "\<not> watcherStop ext (watcher (snd e))"
  shows "stopWatchers ext (before @ e # after) =
         (False, map (\<lambda>x. WatcherStop (watcher (snd x))) before @ [WatcherStop (watcher (snd e))])"
  using assms(1)
proof (induction before)
  case Nil
  obtain path st where "e = (path, st)" by (cases e)
  with assms(2) show ?case by simp
next
  case (Cons x before)
  obtain path st where "x = (path, st)" by (cases x)
  with Cons show ?case by simp
qed

lemma stopWatchers_all_resolve:
  "\<forall>x \<in> set reg. watcherStop ext (watcher (snd x)) \<Longrightarrow>
   stopWatchers ext reg = (True, map (\<lambda>x. WatcherStop (watcher (snd x))) reg)"
  by (induction reg) auto

text \<open>
  Claim C9, amended. \<open>stop\<close> makes its calls in the order of the plan: clear the timer,
  stop the watchers in registry order, stop the tunnel when there is a manager, close the
  open clients and clear the client set, close the server. It is fail-fast. When the stop
  of a watcher rejects, and those before it resolve, \<open>stop\<close> rejects with the server
  unchanged, and its calls are the timer, the watchers before that one, and that one:
  no later watcher, no tunnel, no client and no server close. When every watcher resolves
  and the tunnel's stop rejects, the calls end with the tunnel. Otherwise all of the plan
  runs and the client set is empty. In every case the calls are a prefix of the plan.
\<close>

theorem stop_teardown:
  "(\<forall>before e after.
      projects srv = before @ e # after \<and>
      (\<forall>x \<in> set before. watcherStop ext (watcher (snd x))) \<and>
      \<not> watcherStop ext (watcher (snd e)) \<longrightarrow>
      stop ext stopTunnel appClose srv =
        (False,
         (case rescanInterval srv of None \<Rightarrow> [] | Some h \<Rightarrow> [ClearInterval h]) @
         map (\<lambda>x. WatcherStop (watcher (snd x))) before @ [WatcherStop (watcher (snd e))],
         srv)) \<and>
   ((\<forall>x \<in> set (projects srv). watcherStop ext (watcher (snd x))) \<longrightarrow>
      (tunnelManager srv = None \<longrightarrow>
         stop ext stopTunnel appClose srv = (appClose, teardownPlan srv, srv\<lparr>clients := []\<rparr>)) \<and>
      (\<forall>tm tm'. tunnelManager srv = Some tm \<and> stopTunnel tm = (False, tm') \<longrightarrow>
         stop ext stopTunnel appClose srv =
           (False,
            (case rescanInterval srv of None \<Rightarrow> [] | Some h \<Rightarrow> [ClearInterval h]) @
            map (\<lambda>x. WatcherStop (watcher (snd x))) (projects srv) @ [StopTunnel],
            srv\<lparr>tunnelManager := Some tm'\<rparr>)) \<and>
      (\<forall>tm tm'. tunnelManager srv = Some tm \<and> stopTunnel tm = (True, tm') \<longrightarrow>
         stop ext stopTunnel appClose srv =
           (appClose, teardownPlan srv, srv\<lparr>clients := [], tunnelManager := Some tm'\<rparr>))) \<and>
   prefix (fst (snd (stop ext stopTunnel appClose srv))) (teardownPlan srv) \<and>
   (fst (stop ext stopTunnel appClose srv) \<longrightarrow>
      fst (snd (stop ext stopTunnel appClose srv)) = teardownPlan srv \<and>
      clients (snd (snd (stop ext stopTunnel appClose srv))) = []) \<and>
   ((\<exists>e \<in> set (projects srv). \<not> watcherStop ext (watcher (snd e))) \<longrightarrow>
      \<not> fst (stop ext stopTunnel appClose srv) \<and>
      snd (snd (stop ext stopTunnel appClose srv)) = srv \<and>
      (\<forall>step \<in> set (fst (snd (stop ext stopTunnel appClose srv))).
         (\<exists>h. step = ClearInterval h) \<or> (\<exists>p. step = WatcherStop p)))"
proof (intro conjI allI impI)
  fix before e after
  assume "projects srv = before @ e # after \<and>
      (\<forall>x \<in> set before. watcherStop ext (watcher (snd x))) \<and>
      \<not> watcherStop ext (watcher (snd e))"
  then have p: "projects srv = before @ e # after"
    and b: "\<forall>x \<in> set before. watcherStop ext (watcher (snd x))"
    and e: "\<not> watcherStop ext (watcher (snd e))" by blast+
  show "stop ext stopTunnel appClose srv =
        (False,
         (case rescanInterval srv of None \<Rightarrow> [] | Some h \<Rightarrow> [ClearInterval h]) @
         map (\<lambda>x. WatcherStop (watcher (snd x))) before @ [WatcherStop (watcher (snd e))],
         srv)"
    unfolding stop_def p by (simp add: stopWatchers_first_rejects [OF b e] Let_def)
next
  assume a: "\<forall>x \<in> set (projects srv). watcherStop ext (watcher (snd x))"
    and n: "tunnelManager srv = None"
  show "stop ext stopTunnel appClose srv = (appClose, teardownPlan srv, srv\<lparr>clients := []\<rparr>)"
    unfolding stop_def
    by (simp add: stopWatchers_all_resolve [OF a] n Let_def teardownPlan_def)
next
  fix tm tm'
  assume a: "\<forall>x \<in> set (projects srv). watcherStop ext (watcher (snd x))"
    and t: "tunnelManager srv = Some tm \<and> stopTunnel tm = (False, tm')"
  show "stop ext stopTunnel appClose srv =
           (False,
            (case rescanInterval srv of None \<Rightarrow> [] | Some h \<Rightarrow> [ClearInterval h]) @
            map (\<lambda>x. WatcherStop (watcher (snd x))) (projects srv) @ [StopTunnel],
            srv\<lparr>tunnelManager := Some tm'\<rparr>)"
    unfolding stop_def using t
    by (simp add: stopWatchers_all_resolve [OF a] Let_def)
next
  fix tm tm'
  assume a: "\<forall>x \<in> set (projects srv). watcherStop ext (watcher (snd x))"
    and t: "tunnelManager srv = Some tm \<and> stopTunnel tm = (True, tm')"
  show "stop ext stopTunnel appClose srv =
           (appClose, teardownPlan srv, srv\<lparr>clients := [], tunnelManager := Some tm'\<rparr>)"
    unfolding stop_def using t
    by (simp add: stopWatchers_all_resolve [OF a] Let_def teardownPlan_def)
next
  show "prefix (fst (snd (stop ext stopTunnel appClose srv))) (teardownPlan srv)"
  proof (cases rule: stop_cases [of ext srv stopTunnel appClose])
    case (watcher_fails ws)
    have "prefix ws (map (\<lambda>e. WatcherStop (watcher (snd e))) (projects srv))"
      using stopWatchers_prefix [of ext "projects srv"] watcher_fails(1) by simp
    then show ?thesis
      unfolding teardownPlan_def watcher_fails(2) by (simp add: prefix_prefix)
  next
    case no_manager
    then show ?thesis by simp
  next
    case (tunnel_fails tm tm')
    then show ?thesis unfolding teardownPlan_def by simp
  next
    case (all_run tm tm')
    then show ?thesis by simp
  qed
next
  assume ok: "fst (stop ext stopTunnel appClose srv)"
  then show "fst (snd (stop ext stopTunnel appClose srv)) = teardownPlan srv"
    by (cases rule: stop_cases [of ext srv stopTunnel appClose]) simp_all
  from ok show "clients (snd (snd (stop ext stopTunnel appClose srv))) = []"
    by (cases rule: stop_cases [of ext srv stopTunnel appClose]) simp_all
next
  assume "\<exists>e \<in> set (projects srv). \<not> watcherStop ext (watcher (snd e))"
  then have nok: "\<not> fst (stopWatchers ext (projects srv))"
    using stopWatchers_all_ok [of ext "projects srv"] by blast
  then obtain ws where sw: "stopWatchers ext (projects srv) = (False, ws)"
    by (cases "stopWatchers ext (projects srv)") auto
  then have st: "stop ext stopTunnel appClose srv =
      (False, (case rescanInterval srv of None \<Rightarrow> [] | Some h \<Rightarrow> [ClearInterval h]) @ ws, srv)"
    by (simp add: stop_def Let_def)
  from st show "\<not> fst (stop ext stopTunnel appClose srv)" by simp
  from st show "snd (snd (stop ext stopTunnel appClose srv)) = srv" by simp
  have w: "\<forall>x \<in> set ws. \<exists>p. x = WatcherStop p"
    using stopWatchers_steps [of _ ext "projects srv"] sw by simp
  then show "\<forall>step \<in> set (fst (snd (stop ext stopTunnel appClose srv))).
         (\<exists>h. step = ClearInterval h) \<or> (\<exists>p. step = WatcherStop p)"
    unfolding st by (auto split: option.splits)
qed


text \<open>
  The example server with a tunnel manager: the second watcher rejects, and all
  collaborators resolve.
\<close>

theorem stop_teardown_witness:
  "projects exTunnelServer =
     [(''/w/b'', exState ''/w/b'' ''beta'' True)] @ (''/w/a'', exState ''/w/a'' ''alpha'' True) #
     [(''/w/c'', exState ''/w/c'' ''gamma'' False), (''/w/d'', exState ''/w/d'' ''delta'' True)] \<and>
   list_all (\<lambda>x. watcherStop exLateFailingExt (watcher (snd x)))
     [(''/w/b'', exState ''/w/b'' ''beta'' True)] \<and>
   \<not> watcherStop exLateFailingExt (watcher (snd (''/w/a'', exState ''/w/a'' ''alpha'' True))) \<and>
   stop exLateFailingExt exStopTunnel True exTunnelServer =
     (False, [ClearInterval 7, WatcherStop ''/w/b'', WatcherStop ''/w/a''], exTunnelServer) \<and>
   list_all (\<lambda>x. watcherStop exExt (watcher (snd x))) (projects exTunnelServer) \<and>
   tunnelManager exTunnelServer = Some \<lparr>tm_active = False, tm_info = None\<rparr> \<and>
   exStopTunnel \<lparr>tm_active = False, tm_info = None\<rparr> =
     (True, \<lparr>tm_active = False, tm_info = None\<rparr>) \<and>
   stop exExt exStopTunnel True exTunnelServer =
     (True, teardownPlan exTunnelServer,
      exTunnelServer\<lparr>clients := [], tunnelManager := Some \<lparr>tm_active = False, tm_info = None\<rparr>\<rparr>) \<and>
   teardownPlan exTunnelServer =
     [ClearInterval 7, WatcherStop ''/w/b'', WatcherStop ''/w/a'', WatcherStop ''/w/c'',
      WatcherStop ''/w/d'', StopTunnel, ClientClose 1, ClientsClear, AppClose]"
proof -
  let ?b = "(''/w/b'', exState ''/w/b'' ''beta'' True)"
  let ?a = "(''/w/a'', exState ''/w/a'' ''alpha'' True)"
  let ?rest = "[(''/w/c'', exState ''/w/c'' ''gamma'' False), (''/w/d'', exState ''/w/d'' ''delta'' True)]"
  let ?idle = "\<lparr>tm_active = False, tm_info = None\<rparr>"
  have p: "projects exTunnelServer = [?b] @ ?a # ?rest"
    by (simp add: exTunnelServer_def exServer_def exRegistry_def)
  have b: "list_all (\<lambda>x. watcherStop exLateFailingExt (watcher (snd x))) [?b]" by code_simp
  have a: "\<not> watcherStop exLateFailingExt (watcher (snd ?a))" by code_simp
  have ok: "list_all (\<lambda>x. watcherStop exExt (watcher (snd x))) (projects exTunnelServer)"
    by code_simp
  have m: "tunnelManager exTunnelServer = Some ?idle" by (simp add: exTunnelServer_def)
  have i: "exStopTunnel ?idle = (True, ?idle)" by (simp add: exStopTunnel_def)
  have t: "rescanInterval exTunnelServer = Some 7"
    by (simp add: exTunnelServer_def exServer_def)
  have plan: "teardownPlan exTunnelServer =
     [ClearInterval 7, WatcherStop ''/w/b'', WatcherStop ''/w/a'', WatcherStop ''/w/c'',
      WatcherStop ''/w/d'', StopTunnel, ClientClose 1, ClientsClear, AppClose]"
    by code_simp
  from b have b': "\<forall>x \<in> set [?b]. watcherStop exLateFailingExt (watcher (snd x))"
    by (simp only: list_all_iff)
  from ok have ok': "\<forall>x \<in> set (projects exTunnelServer). watcherStop exExt (watcher (snd x))"
    by (simp only: list_all_iff)
  from stop_teardown [of exTunnelServer exLateFailingExt exStopTunnel True] p b' a
  have "stop exLateFailingExt exStopTunnel True exTunnelServer =
        (False,
         (case rescanInterval exTunnelServer of None \<Rightarrow> [] | Some h \<Rightarrow> [ClearInterval h]) @
         map (\<lambda>x. WatcherStop (watcher (snd x))) [?b] @ [WatcherStop (watcher (snd ?a))],
         exTunnelServer)"
    by blast
  then have r1: "stop exLateFailingExt exStopTunnel True exTunnelServer =
     (False, [ClearInterval 7, WatcherStop ''/w/b'', WatcherStop ''/w/a''], exTunnelServer)"
    by (simp add: t exState_def)
  from stop_teardown [of exTunnelServer exExt exStopTunnel True] ok' m i
  have r2: "stop exExt exStopTunnel True exTunnelServer =
     (True, teardownPlan exTunnelServer,
      exTunnelServer\<lparr>clients := [], tunnelManager := Some ?idle\<rparr>)"
    by blast
  from p b a r1 ok m i r2 plan show ?thesis by (intro conjI)
qed

end
